theory Spec2Isabelle
  imports Main
begin

section \<open>The memory pool of Kokkos\_MemoryPool\_Inline.hpp\<close>

text \<open>
  The pool is the class \<open>MemPoolList\<close>. Addresses and sizes (\<open>Link *\<close>, \<open>char *\<close>,
  \<open>size_t\<close>) are natural numbers; the null pointer is \<open>0\<close>. The one subtraction of the
  source that can wrap (\<open>num_chunks - 1\<close>) has its wrap-around written out in
  \<open>size_t_dec\<close>. The two sums of the range check of \<open>deallocate\<close> are taken modulo
  \<open>2 ^ 64\<close> (\<open>ptr_add\<close>), as the machine computes them: the caller chooses both
  operands. The sums that form the addresses of sub-chunks in \<open>allocate\<close> are not reduced:
  they stay inside the removed chunk whenever \<open>num_chunks\<close> is not 0.

  The two arrays \<open>m_chunk_size\<close> and \<open>m_freelist\<close> are lists, and a read past the end
  of either is the error \<open>OUT_OF_BOUNDS\<close>. The arena is seen through the link fields
  only: \<open>m_next s a\<close> is the field \<open>m_next\<close> of the \<open>Link\<close> at address \<open>a\<close>. The array of
  list heads is not part of that memory.
\<close>

definition KOKKOS_MEMPOOLLIST_LOCK :: nat where
  "KOKKOS_MEMPOOLLIST_LOCK = 2 ^ 64 - 1"

datatype error =
    REQUESTED_SIZE_TOO_LARGE
  | UNLOCK_ERROR
  | NO_CHUNKS_BIG_ENOUGH
  | ADDRESS_OUT_OF_RANGE
  | CHUNK_TOO_LARGE
  | OUT_OF_BOUNDS

record MemPoolList =
  m_chunk_size :: "nat list"
  m_freelist :: "nat list"
  m_data :: nat
  m_data_size :: nat
  m_next :: "nat \<Rightarrow> nat"

text \<open>
  Modelled from the spec: \<open>atomic_compare_exchange\<close> of \<open>Kokkos_Atomic.hpp\<close> is not
  under src/. It stores \<open>val\<close> in the slot when the slot holds \<open>compare\<close>, and returns
  what the slot held. The slot is \<open>m_freelist + i\<close>.
\<close>

definition atomic_compare_exchange :: "nat list \<Rightarrow> nat \<Rightarrow> nat \<Rightarrow> nat \<Rightarrow> nat \<times> nat list" where
  "atomic_compare_exchange fl i compare val =
     (fl ! i, if fl ! i = compare then fl[i := val] else fl)"

subsection \<open>The two scans\<close>

text \<open>
  \<^verbatim>\<open>for ( ; m_chunk_size[l] > 0 && alloc_size > m_chunk_size[l]; ++l );\<close>
  of \<open>allocate\<close> (line 135) and \<open>deallocate\<close> (line 287).
\<close>

function find_chunk_size :: "nat list \<Rightarrow> nat \<Rightarrow> nat \<Rightarrow> error + nat" where
  "find_chunk_size cs alloc_size l =
     (if length cs \<le> l then Inl OUT_OF_BOUNDS
      else if cs ! l > 0 \<and> alloc_size > cs ! l then find_chunk_size cs alloc_size (Suc l)
      else Inr l)"
  by pat_completeness auto
termination
  by (relation "measure (\<lambda>(cs, a, l). length cs - l)") auto

text \<open>
  \<^verbatim>\<open>for ( ; m_chunk_size[l] > 0 && m_freelist[l] == 0; ++l );\<close> of \<open>allocate\<close>
  (line 150). The head is read only where the chunk size is positive.
\<close>

function find_freelist :: "nat list \<Rightarrow> nat list \<Rightarrow> nat \<Rightarrow> error + nat" where
  "find_freelist cs fl l =
     (if length cs \<le> l then Inl OUT_OF_BOUNDS
      else if cs ! l > 0 then
        (if length fl \<le> l then Inl OUT_OF_BOUNDS
         else if fl ! l = 0 then find_freelist cs fl (Suc l)
         else Inr l)
      else Inr l)"
  by pat_completeness auto
termination
  by (relation "measure (\<lambda>(cs, fl, l). length cs - l)") auto

subsection \<open>insert\_list\<close>

text \<open>
  One thread runs alone, so between the read of the head and the compare-and-swap
  nothing else writes the slot. A result \<open>None\<close> is a call that never returns.
\<close>

partial_function (option) insert_list ::
  "MemPoolList \<Rightarrow> nat \<Rightarrow> nat \<Rightarrow> nat \<Rightarrow> (error + MemPoolList) option" where
  "insert_list s lp_head lp_tail list =
     (if length (m_freelist s) \<le> list then Some (Inl OUT_OF_BOUNDS)
      else
        let old_head = m_freelist s ! list in
        if old_head \<noteq> KOKKOS_MEMPOOLLIST_LOCK then
          let s1 = s\<lparr>m_next := (m_next s)(lp_tail := old_head)\<rparr> in
          (case atomic_compare_exchange (m_freelist s1) list old_head lp_head of
             (head, fl) \<Rightarrow>
               if head = old_head then Some (Inr (s1\<lparr>m_freelist := fl\<rparr>))
               else insert_list (s1\<lparr>m_freelist := fl\<rparr>) lp_head lp_tail list)
        else insert_list s lp_head lp_tail list)"

subsection \<open>allocate\<close>

text \<open>\<open>num_chunks - 1\<close> on \<open>size_t\<close>.\<close>

definition size_t_dec :: "nat \<Rightarrow> nat" where
  "size_t_dec n = (if n = 0 then 2 ^ 64 - 1 else n - 1)"

text \<open>
  \<^verbatim>\<open>for (size_t i = 2; i < num_chunks; ++i) {
    Link * chunk = (Link *) (pchar + (i - 1) * m_chunk_size[l_exp]);
    chunk->m_next = (Link *) (pchar + i * m_chunk_size[l_exp]);
  }\<close>
\<close>

function link_chunks :: "(nat \<Rightarrow> nat) \<Rightarrow> nat \<Rightarrow> nat \<Rightarrow> nat \<Rightarrow> nat \<Rightarrow> (nat \<Rightarrow> nat)" where
  "link_chunks mem pchar sz num_chunks i =
     (if i < num_chunks
      then link_chunks (mem(pchar + (i - 1) * sz := pchar + i * sz)) pchar sz num_chunks (Suc i)
      else mem)"
  by pat_completeness auto
termination
  by (relation "measure (\<lambda>(mem, pchar, sz, n, i). n - i)") auto

text \<open>
  The block \<^verbatim>\<open>if ( removed && p != 0 ) { if ( l > l_exp ) { ... } }\<close> (lines 215 to
  249). Where \<open>l > l_exp\<close> the divisor is positive, since the scan of line 150 has gone
  past \<open>l_exp\<close>.
\<close>

definition subdivide :: "MemPoolList \<Rightarrow> nat \<Rightarrow> nat \<Rightarrow> nat \<Rightarrow> (error + MemPoolList) option" where
  "subdivide s p l l_exp =
     (if p \<noteq> 0 \<and> l > l_exp then
        let num_chunks = m_chunk_size s ! l div m_chunk_size s ! l_exp;
            s1 = s\<lparr>m_next := link_chunks (m_next s) p (m_chunk_size s ! l_exp) num_chunks 2\<rparr>;
            lp_head = p + m_chunk_size s ! l_exp;
            lp_tail = p + size_t_dec num_chunks * m_chunk_size s ! l_exp
        in insert_list s1 lp_head lp_tail l_exp
      else Some (Inr s))"

text \<open>
  The loop \<^verbatim>\<open>while ( !removed )\<close> (lines 147 to 250). The flag \<open>pe\<close> says whether
  \<open>KOKKOS_MEMPOOLLIST_PRINTERR\<close> is defined (the source defines it at line 55): then
  \<open>Kokkos::abort\<close> ends the call with an error. The loop returns its locals \<open>p\<close>, \<open>l\<close> and
  \<open>num_tries\<close> with the pool.
\<close>

partial_function (option) allocate_loop ::
  "bool \<Rightarrow> MemPoolList \<Rightarrow> nat \<Rightarrow> nat \<Rightarrow> (error + nat \<times> nat \<times> nat \<times> MemPoolList) option" where
  "allocate_loop pe s l_exp num_tries =
     (case find_freelist (m_chunk_size s) (m_freelist s) l_exp of
        Inl e \<Rightarrow> Some (Inl e)
      | Inr l \<Rightarrow>
          if m_chunk_size s ! l > 0 then
            let old_head = m_freelist s ! l in
            if old_head \<noteq> 0 \<and> old_head \<noteq> KOKKOS_MEMPOOLLIST_LOCK then
              (case atomic_compare_exchange (m_freelist s) l old_head KOKKOS_MEMPOOLLIST_LOCK of
                 (head, fl1) \<Rightarrow>
                   let s1 = s\<lparr>m_freelist := fl1\<rparr> in
                   if head = old_head then
                     let head_next = m_next s1 old_head in
                     (case atomic_compare_exchange (m_freelist s1) l
                             KOKKOS_MEMPOOLLIST_LOCK head_next of
                        (lock_head, fl2) \<Rightarrow>
                          let s2 = s1\<lparr>m_freelist := fl2\<rparr> in
                          if lock_head \<noteq> KOKKOS_MEMPOOLLIST_LOCK \<and> pe
                          then Some (Inl UNLOCK_ERROR)
                          else
                            let s3 = s2\<lparr>m_next := (m_next s2)(old_head := 0)\<rparr> in
                            (case subdivide s3 old_head l l_exp of
                               None \<Rightarrow> None
                             | Some (Inl e) \<Rightarrow> Some (Inl e)
                             | Some (Inr s4) \<Rightarrow> Some (Inr (old_head, l, num_tries, s4))))
                   else allocate_loop pe s1 l_exp num_tries)
            else allocate_loop pe s l_exp num_tries
          else if num_tries = 100000 then
            (if pe then Some (Inl NO_CHUNKS_BIG_ENOUGH) else Some (Inr (0, l, num_tries, s)))
          else allocate_loop pe s l_exp (num_tries + 1))"

definition allocate :: "bool \<Rightarrow> MemPoolList \<Rightarrow> nat \<Rightarrow> (error + nat \<times> MemPoolList) option" where
  "allocate pe s alloc_size =
     (case find_chunk_size (m_chunk_size s) alloc_size 0 of
        Inl e \<Rightarrow> Some (Inl e)
      | Inr l_exp \<Rightarrow>
          if pe \<and> m_chunk_size s ! l_exp = 0 then Some (Inl REQUESTED_SIZE_TOO_LARGE)
          else
            (case allocate_loop pe s l_exp 0 of
               None \<Rightarrow> None
             | Some (Inl e) \<Rightarrow> Some (Inl e)
             | Some (Inr (p, l, num_tries, s')) \<Rightarrow> Some (Inr (p, s'))))"

subsection \<open>deallocate\<close>

text \<open>
  \<^verbatim>\<open>ap + alloc_size\<close> and \<^verbatim>\<open>m_data + m_data_size\<close> of line 274, on 64-bit
  addresses.
\<close>

definition ptr_add :: "nat \<Rightarrow> nat \<Rightarrow> nat" where
  "ptr_add p n = (p + n) mod 2 ^ 64"

definition deallocate :: "bool \<Rightarrow> MemPoolList \<Rightarrow> nat \<Rightarrow> nat \<Rightarrow> (error + MemPoolList) option" where
  "deallocate pe s alloc_ptr alloc_size =
     (if pe \<and> (alloc_ptr < m_data s \<or>
               ptr_add alloc_ptr alloc_size > ptr_add (m_data s) (m_data_size s))
      then Some (Inl ADDRESS_OUT_OF_RANGE)
      else
        (case find_chunk_size (m_chunk_size s) alloc_size 0 of
           Inl e \<Rightarrow> Some (Inl e)
         | Inr l \<Rightarrow>
             if pe \<and> m_chunk_size s ! l = 0 then Some (Inl CHUNK_TOO_LARGE)
             else insert_list s alloc_ptr alloc_ptr l))"


subsection \<open>A pool to compute with\<close>

text \<open>
  Classes of 64, 256 and 1024 bytes; an arena of 4096 bytes at address 4096, cut into
  four chunks of 1024 bytes that are chained on the list of the largest class.
\<close>

definition example_pool :: MemPoolList where
  "example_pool =
     \<lparr>m_chunk_size = [64, 256, 1024, 0],
      m_freelist = [0, 0, 4096, 0],
      m_data = 4096,
      m_data_size = 4096,
      m_next = (\<lambda>a. if a = 4096 then 5120 else if a = 5120 then 6144
                     else if a = 6144 then 7168 else 0)\<rparr>"

subsection \<open>What a free list holds\<close>

text \<open>
  \<open>chain mem h xs\<close>: following the link fields in \<open>mem\<close> from the head \<open>h\<close> visits the
  chunks \<open>xs\<close> in this order and ends at the null pointer.
\<close>

fun chain :: "(nat \<Rightarrow> nat) \<Rightarrow> nat \<Rightarrow> nat list \<Rightarrow> bool" where
  "chain mem h [] = (h = 0)"
| "chain mem h (x # xs) = (h = x \<and> x \<noteq> 0 \<and> chain mem (mem x) xs)"

text \<open>
  A pool whose larger class is less than twice the smaller one: classes of 64 and 100
  bytes, an arena of 200 bytes at address 1000 holding two chunks of 100 bytes.
\<close>

definition bug_pool :: MemPoolList where
  "bug_pool =
     \<lparr>m_chunk_size = [64, 100, 0],
      m_freelist = [0, 1000, 0],
      m_data = 1000,
      m_data_size = 200,
      m_next = (\<lambda>a. if a = 1000 then 1100 else 0)\<rparr>"

subsection \<open>Calling allocate several times\<close>

text \<open>
  \<open>allocate_n pe s a k\<close> is \<open>k\<close> calls of \<open>allocate\<close> for \<open>a\<close> bytes, one after the other
  with nothing in between; it returns the addresses in the order of the calls, and
  stops at the first call that fails or does not return.
\<close>

fun allocate_n :: "bool \<Rightarrow> MemPoolList \<Rightarrow> nat \<Rightarrow> nat \<Rightarrow> (error + nat list \<times> MemPoolList) option" where
  "allocate_n pe s a 0 = Some (Inr ([], s))"
| "allocate_n pe s a (Suc k) =
     (case allocate pe s a of
        None \<Rightarrow> None
      | Some (Inl e) \<Rightarrow> Some (Inl e)
      | Some (Inr (p, s1)) \<Rightarrow>
          (case allocate_n pe s1 a k of
             None \<Rightarrow> None
           | Some (Inl e) \<Rightarrow> Some (Inl e)
           | Some (Inr (ps, s2)) \<Rightarrow> Some (Inr (p # ps, s2))))"


section \<open>Several threads\<close>

text \<open>
  The same three functions, cut at every access to a list head or to a link field:
  a thread is at a program point with its local variables, and one step performs one
  access together with the local computation that follows it. Steps of different
  threads interleave; memory is sequentially consistent, so \<open>memory_fence\<close> is no step.
  The size-class table and the arena bounds never change, and reading them is part of
  a step. As above, the array of list heads is not part of the link memory.
\<close>

datatype action =
    Local
  | Read_head nat nat
  | Cas_head nat nat nat nat
  | Read_next nat nat
  | Write_next nat nat

text \<open>
  \<open>Read_head list v\<close>: the head of \<open>list\<close> was read and held \<open>v\<close>.
  \<open>Cas_head list expected new found\<close>: \<open>atomic_compare_exchange\<close> on the head of \<open>list\<close>,
  which held \<open>found\<close>. \<open>Read_next a v\<close> and \<open>Write_next a v\<close>: the link field at \<open>a\<close>.
\<close>

datatype pc =
    Idle
  | A_start nat
  | A_scan nat nat nat
  | A_read_head nat nat nat
  | A_lock nat nat nat nat
  | A_read_next nat nat nat
  | A_unlock nat nat nat nat
  | A_clear nat nat nat
  | A_link nat nat nat nat
  | D_start nat nat
  | I_read_head nat nat nat "nat option"
  | I_write_next nat nat nat nat "nat option"
  | I_cas nat nat nat nat "nat option"
  | Returned "nat option"
  | Aborted error

text \<open>
  The program points of \<open>allocate\<close>, with their locals:
  \<open>A_start alloc_size\<close>, the entry;
  \<open>A_scan l_exp num_tries l\<close>, the test of the loop of line 150 at index \<open>l\<close>;
  \<open>A_read_head l_exp num_tries l\<close>, line 155;
  \<open>A_lock l_exp num_tries l old_head\<close>, the compare-and-swap of line 163;
  \<open>A_read_next l_exp l old_head\<close>, line 169;
  \<open>A_unlock l_exp l old_head head_next\<close>, the compare-and-swap of line 173;
  \<open>A_clear l_exp l old_head\<close>, line 188;
  \<open>A_link l_exp l p i\<close>, line 240 in the loop of line 238.
  Of \<open>deallocate\<close>: \<open>D_start alloc_ptr alloc_size\<close>, the entry.
  Of \<open>insert_list\<close>, with \<open>lp_head\<close>, \<open>lp_tail\<close>, \<open>list\<close>, then \<open>old_head\<close>, and last what the
  caller returns afterwards (\<open>allocate\<close> its \<open>p\<close>, \<open>deallocate\<close> nothing):
  \<open>I_read_head\<close>, line 101; \<open>I_write_next\<close>, line 108; \<open>I_cas\<close>, line 116.
\<close>

fun exec :: "bool \<Rightarrow> MemPoolList \<Rightarrow> pc \<Rightarrow> action \<times> MemPoolList \<times> pc" where
  "exec pe s (A_start alloc_size) =
     (case find_chunk_size (m_chunk_size s) alloc_size 0 of
        Inl e \<Rightarrow> (Local, s, Aborted e)
      | Inr l_exp \<Rightarrow>
          if pe \<and> m_chunk_size s ! l_exp = 0
          then (Local, s, Aborted REQUESTED_SIZE_TOO_LARGE)
          else (Local, s, A_scan l_exp 0 l_exp))"
| "exec pe s (A_scan l_exp num_tries l) =
     (if length (m_chunk_size s) \<le> l then (Local, s, Aborted OUT_OF_BOUNDS)
      else if m_chunk_size s ! l > 0 then
        (if length (m_freelist s) \<le> l then (Local, s, Aborted OUT_OF_BOUNDS)
         else if m_freelist s ! l = 0
         then (Read_head l (m_freelist s ! l), s, A_scan l_exp num_tries (Suc l))
         else (Read_head l (m_freelist s ! l), s, A_read_head l_exp num_tries l))
      else if num_tries = 100000
      then (Local, s, if pe then Aborted NO_CHUNKS_BIG_ENOUGH else Returned (Some 0))
      else (Local, s, A_scan l_exp (num_tries + 1) l_exp))"
| "exec pe s (A_read_head l_exp num_tries l) =
     (let old_head = m_freelist s ! l in
      (Read_head l old_head, s,
       if old_head \<noteq> 0 \<and> old_head \<noteq> KOKKOS_MEMPOOLLIST_LOCK
       then A_lock l_exp num_tries l old_head
       else A_scan l_exp num_tries l_exp))"
| "exec pe s (A_lock l_exp num_tries l old_head) =
     (case atomic_compare_exchange (m_freelist s) l old_head KOKKOS_MEMPOOLLIST_LOCK of
        (head, fl) \<Rightarrow>
          (Cas_head l old_head KOKKOS_MEMPOOLLIST_LOCK head, s\<lparr>m_freelist := fl\<rparr>,
           if head = old_head then A_read_next l_exp l old_head
           else A_scan l_exp num_tries l_exp))"
| "exec pe s (A_read_next l_exp l old_head) =
     (Read_next old_head (m_next s old_head), s,
      A_unlock l_exp l old_head (m_next s old_head))"
| "exec pe s (A_unlock l_exp l old_head head_next) =
     (case atomic_compare_exchange (m_freelist s) l KOKKOS_MEMPOOLLIST_LOCK head_next of
        (lock_head, fl) \<Rightarrow>
          (Cas_head l KOKKOS_MEMPOOLLIST_LOCK head_next lock_head, s\<lparr>m_freelist := fl\<rparr>,
           if lock_head \<noteq> KOKKOS_MEMPOOLLIST_LOCK \<and> pe then Aborted UNLOCK_ERROR
           else A_clear l_exp l old_head))"
| "exec pe s (A_clear l_exp l old_head) =
     (Write_next old_head 0, s\<lparr>m_next := (m_next s)(old_head := 0)\<rparr>,
      if old_head \<noteq> 0 \<and> l > l_exp then
        (let num_chunks = m_chunk_size s ! l div m_chunk_size s ! l_exp in
         if 2 < num_chunks then A_link l_exp l old_head 2
         else I_read_head (old_head + m_chunk_size s ! l_exp)
                (old_head + size_t_dec num_chunks * m_chunk_size s ! l_exp) l_exp
                (Some old_head))
      else Returned (Some old_head))"
| "exec pe s (A_link l_exp l p i) =
     (let sz = m_chunk_size s ! l_exp; num_chunks = m_chunk_size s ! l div sz in
      (Write_next (p + (i - 1) * sz) (p + i * sz),
       s\<lparr>m_next := (m_next s)(p + (i - 1) * sz := p + i * sz)\<rparr>,
       if Suc i < num_chunks then A_link l_exp l p (Suc i)
       else I_read_head (p + sz) (p + size_t_dec num_chunks * sz) l_exp (Some p)))"
| "exec pe s (D_start alloc_ptr alloc_size) =
     (if pe \<and> (alloc_ptr < m_data s \<or>
               ptr_add alloc_ptr alloc_size > ptr_add (m_data s) (m_data_size s))
      then (Local, s, Aborted ADDRESS_OUT_OF_RANGE)
      else
        (case find_chunk_size (m_chunk_size s) alloc_size 0 of
           Inl e \<Rightarrow> (Local, s, Aborted e)
         | Inr l \<Rightarrow>
             if pe \<and> m_chunk_size s ! l = 0 then (Local, s, Aborted CHUNK_TOO_LARGE)
             else (Local, s, I_read_head alloc_ptr alloc_ptr l None)))"
| "exec pe s (I_read_head lp_head lp_tail list ret) =
     (if length (m_freelist s) \<le> list then (Local, s, Aborted OUT_OF_BOUNDS)
      else
        let old_head = m_freelist s ! list in
        (Read_head list old_head, s,
         if old_head \<noteq> KOKKOS_MEMPOOLLIST_LOCK
         then I_write_next lp_head lp_tail list old_head ret
         else I_read_head lp_head lp_tail list ret))"
| "exec pe s (I_write_next lp_head lp_tail list old_head ret) =
     (Write_next lp_tail old_head, s\<lparr>m_next := (m_next s)(lp_tail := old_head)\<rparr>,
      I_cas lp_head lp_tail list old_head ret)"
| "exec pe s (I_cas lp_head lp_tail list old_head ret) =
     (case atomic_compare_exchange (m_freelist s) list old_head lp_head of
        (head, fl) \<Rightarrow>
          (Cas_head list old_head lp_head head, s\<lparr>m_freelist := fl\<rparr>,
           if head = old_head then Returned ret
           else I_read_head lp_head lp_tail list ret))"
| "exec pe s Idle = (Local, s, Idle)"
| "exec pe s (Returned r) = (Local, s, Returned r)"
| "exec pe s (Aborted e) = (Local, s, Aborted e)"

text \<open>
  The system: a pool and the program point of every thread. An idle thread calls
  \<open>allocate\<close> or \<open>deallocate\<close> with any arguments; a thread takes its next step; a thread
  that has returned is idle again; and the callers write what they like into the
  arena, which the rule \<open>scribble\<close> over-approximates by any write to any link field.
  A thread that has aborted stays so; the others go on, which only adds states.
\<close>

inductive step :: "bool \<Rightarrow> MemPoolList \<times> (nat \<Rightarrow> pc) \<Rightarrow> MemPoolList \<times> (nat \<Rightarrow> pc) \<Rightarrow> bool"
  for pe :: bool where
  call_allocate: "ts t = Idle \<Longrightarrow> step pe (s, ts) (s, ts(t := A_start alloc_size))"
| call_deallocate: "ts t = Idle \<Longrightarrow> step pe (s, ts) (s, ts(t := D_start alloc_ptr alloc_size))"
| run: "exec pe s (ts t) = (a, s', c') \<Longrightarrow> step pe (s, ts) (s', ts(t := c'))"
| return: "ts t = Returned r \<Longrightarrow> step pe (s, ts) (s, ts(t := Idle))"
| scribble: "step pe (s, ts) (s\<lparr>m_next := (m_next s)(a := v)\<rparr>, ts)"

inductive reachable :: "bool \<Rightarrow> MemPoolList \<Rightarrow> MemPoolList \<times> (nat \<Rightarrow> pc) \<Rightarrow> bool"
  for pe :: bool and s0 :: MemPoolList where
  init: "reachable pe s0 (s0, \<lambda>t. Idle)"
| step: "reachable pe s0 c \<Longrightarrow> step pe c c' \<Longrightarrow> reachable pe s0 c'"

text \<open>
  A thread holds the lock of list \<open>l\<close> between its successful compare-and-swap of
  line 163 and its compare-and-swap of line 173.
\<close>

fun holds :: "pc \<Rightarrow> nat \<Rightarrow> bool" where
  "holds (A_read_next l_exp l old_head) k = (k = l)"
| "holds (A_unlock l_exp l old_head head_next) k = (k = l)"
| "holds c k = False"

text \<open>What a thread knows at its program point about its locals.\<close>

fun pc_ok :: "nat \<Rightarrow> pc \<Rightarrow> bool" where
  "pc_ok n (A_read_head l_exp num_tries l) = (l < n)"
| "pc_ok n (A_lock l_exp num_tries l old_head) =
     (l < n \<and> old_head \<noteq> 0 \<and> old_head \<noteq> KOKKOS_MEMPOOLLIST_LOCK)"
| "pc_ok n (A_read_next l_exp l old_head) = (l < n)"
| "pc_ok n (A_unlock l_exp l old_head head_next) = (l < n)"
| "pc_ok n (I_write_next lp_head lp_tail list old_head ret) =
     (list < n \<and> old_head \<noteq> KOKKOS_MEMPOOLLIST_LOCK)"
| "pc_ok n (I_cas lp_head lp_tail list old_head ret) =
     (list < n \<and> old_head \<noteq> KOKKOS_MEMPOOLLIST_LOCK)"
| "pc_ok n (Aborted e) = (e \<noteq> UNLOCK_ERROR)"
| "pc_ok n c = True"

definition lock_inv :: "MemPoolList \<times> (nat \<Rightarrow> pc) \<Rightarrow> bool" where
  "lock_inv c =
     (case c of (s, ts) \<Rightarrow>
        \<forall>t. pc_ok (length (m_freelist s)) (ts t) \<and>
            (\<forall>l. holds (ts t) l \<longrightarrow>
                 m_freelist s ! l = KOKKOS_MEMPOOLLIST_LOCK \<and>
                 (\<forall>t'. holds (ts t') l \<longrightarrow> t' = t)))"

text \<open>
  Schedules to compute with: the events of a run in their order. An event that
  is not enabled leaves the system as it is.
\<close>

datatype event =
    Call_allocate nat nat
  | Call_deallocate nat nat nat
  | Run nat
  | Return nat

fun apply_event ::
  "bool \<Rightarrow> event \<Rightarrow> MemPoolList \<times> (nat \<Rightarrow> pc) \<Rightarrow> MemPoolList \<times> (nat \<Rightarrow> pc)" where
  "apply_event pe (Call_allocate t alloc_size) (s, ts) =
     (if ts t = Idle then (s, ts(t := A_start alloc_size)) else (s, ts))"
| "apply_event pe (Call_deallocate t alloc_ptr alloc_size) (s, ts) =
     (if ts t = Idle then (s, ts(t := D_start alloc_ptr alloc_size)) else (s, ts))"
| "apply_event pe (Run t) (s, ts) =
     (case exec pe s (ts t) of (a, s', c') \<Rightarrow> (s', ts(t := c')))"
| "apply_event pe (Return t) (s, ts) =
     (case ts t of Returned r \<Rightarrow> (s, ts(t := Idle)) | _ \<Rightarrow> (s, ts))"

definition run_events ::
  "bool \<Rightarrow> event list \<Rightarrow> MemPoolList \<times> (nat \<Rightarrow> pc) \<Rightarrow> MemPoolList \<times> (nat \<Rightarrow> pc)" where
  "run_events pe evs c = fold (apply_event pe) evs c"

text \<open>
  On \<open>example_pool\<close>: thread 1 allocates 1024 bytes and returns with the chunk at 4096;
  thread 0 starts to allocate 1024 bytes and has locked the list of that class; thread
  1 then releases its chunk and is about to read the head of the list.
\<close>

definition contended :: "MemPoolList \<times> (nat \<Rightarrow> pc)" where
  "contended =
     run_events True
       [Call_allocate 1 1024, Run 1, Run 1, Run 1, Run 1, Run 1, Run 1, Run 1, Return 1,
        Call_allocate 0 1024, Run 0, Run 0, Run 0, Run 0, Run 0,
        Call_deallocate 1 4096 1024, Run 1]
       (example_pool, \<lambda>t. Idle)"

text \<open>One thread running alone for \<open>n\<close> steps.\<close>

fun solo :: "bool \<Rightarrow> nat \<Rightarrow> MemPoolList \<Rightarrow> pc \<Rightarrow> MemPoolList \<times> pc" where
  "solo pe 0 s c = (s, c)"
| "solo pe (Suc n) s c = (case exec pe s c of (a, s', c') \<Rightarrow> solo pe n s' c')"

definition runs_to :: "bool \<Rightarrow> MemPoolList \<Rightarrow> pc \<Rightarrow> MemPoolList \<Rightarrow> pc \<Rightarrow> bool" where
  "runs_to pe s c s' c' = (\<exists>n. solo pe n s c = (s', c'))"

text \<open>A thread that has left the function it was in.\<close>

fun finished :: "pc \<Rightarrow> bool" where
  "finished (Returned r) = True"
| "finished (Aborted e) = True"
| "finished c = False"

section \<open>Sequential behaviour of the three operations\<close>

declare find_chunk_size.simps [simp del]
declare find_freelist.simps [simp del]
declare link_chunks.simps [simp del]

lemma find_chunk_size_scan:
  assumes pos: "\<forall>c\<in>set sizes. 0 < c"
  shows "l \<le> length sizes \<Longrightarrow> \<forall>j<l. sizes ! j < a \<Longrightarrow>
    \<exists>e. find_chunk_size (sizes @ [0]) a l = Inr e \<and> l \<le> e \<and> e \<le> length sizes \<and>
        (\<forall>j<e. sizes ! j < a) \<and> (e < length sizes \<longrightarrow> a \<le> sizes ! e)"
proof (induction "length sizes - l" arbitrary: l)
  case 0
  then have "l = length sizes" by simp
  then show ?case using 0 by (subst find_chunk_size.simps) simp
next
  case (Suc n)
  then have lt: "l < length sizes" by simp
  show ?case
  proof (cases "a > sizes ! l")
    case True
    have "\<forall>j<Suc l. sizes ! j < a" using Suc.prems(2) True by (auto simp: less_Suc_eq)
    moreover have "n = length sizes - Suc l" using Suc.hyps(2) by simp
    ultimately obtain e where e: "find_chunk_size (sizes @ [0]) a (Suc l) = Inr e" "Suc l \<le> e" "e \<le> length sizes"
       "\<forall>j<e. sizes ! j < a" "e < length sizes \<longrightarrow> a \<le> sizes ! e"
      using Suc.hyps(1)[of "Suc l"] lt by auto
    have "find_chunk_size (sizes @ [0]) a l = find_chunk_size (sizes @ [0]) a (Suc l)"
      using lt True pos by (subst find_chunk_size.simps) (simp add: nth_append)
    then show ?thesis using e by auto
  next
    case False
    have "find_chunk_size (sizes @ [0]) a l = Inr l"
      using lt False by (subst find_chunk_size.simps) (simp add: nth_append)
    then show ?thesis using Suc.prems lt False by auto
  qed
qed


lemma insert_list_free:
  assumes "list < length (m_freelist s)" "m_freelist s ! list \<noteq> KOKKOS_MEMPOOLLIST_LOCK"
  shows "insert_list s lp_head lp_tail list =
    Some (Inr (s\<lparr>m_next := (m_next s)(lp_tail := m_freelist s ! list),
                 m_freelist := (m_freelist s)[list := lp_head]\<rparr>))"
  using assms by (subst insert_list.simps) (simp add: atomic_compare_exchange_def Let_def)

lemma insert_list_locked_aux:
  assumes "insert_list s lp_head lp_tail list = Some y"
  shows "\<not> (list < length (m_freelist s) \<and> m_freelist s ! list = KOKKOS_MEMPOOLLIST_LOCK)"
proof (rule insert_list.raw_induct
    [where P = "\<lambda>s h t l y. \<not> (l < length (m_freelist s) \<and> m_freelist s ! l = KOKKOS_MEMPOOLLIST_LOCK)",
     OF _ assms], goal_cases)
  case (1 f s h t l y)
  then show ?case by (auto simp: Let_def split: if_splits)
qed

lemma insert_list_locked:
  assumes "list < length (m_freelist s)" "m_freelist s ! list = KOKKOS_MEMPOOLLIST_LOCK"
  shows "insert_list s lp_head lp_tail list = None"
  using insert_list_locked_aux[of s lp_head lp_tail list] assms by (cases "insert_list s lp_head lp_tail list") auto

lemma insert_list_oob:
  assumes "length (m_freelist s) \<le> list"
  shows "insert_list s lp_head lp_tail list = Some (Inl OUT_OF_BOUNDS)"
  using assms by (subst insert_list.simps) simp


lemma find_freelist_Inr:
  "find_freelist cs fl l0 = Inr l \<Longrightarrow>
     l0 \<le> l \<and> l < length cs \<and> (0 < cs ! l \<longrightarrow> l < length fl \<and> fl ! l \<noteq> 0) \<and>
     (\<forall>j. l0 \<le> j \<and> j < l \<longrightarrow> 0 < cs ! j \<and> j < length fl \<and> fl ! j = 0)"
proof (induction cs fl l0 rule: find_freelist.induct)
  case (1 cs fl l0)
  show ?case
  proof (cases "\<not> length cs \<le> l0 \<and> 0 < cs ! l0 \<and> \<not> length fl \<le> l0 \<and> fl ! l0 = 0")
    case True
    then have "find_freelist cs fl (Suc l0) = Inr l"
      using "1.prems" by (subst (asm) find_freelist.simps) simp
    then have IH: "Suc l0 \<le> l \<and> l < length cs \<and> (0 < cs ! l \<longrightarrow> l < length fl \<and> fl ! l \<noteq> 0) \<and>
        (\<forall>j. Suc l0 \<le> j \<and> j < l \<longrightarrow> 0 < cs ! j \<and> j < length fl \<and> fl ! j = 0)"
      using "1.IH" True by simp
    have "\<And>j. l0 \<le> j \<Longrightarrow> j < l \<Longrightarrow> 0 < cs ! j \<and> j < length fl \<and> fl ! j = 0"
    proof -
      fix j assume "l0 \<le> j" "j < l"
      then show "0 < cs ! j \<and> j < length fl \<and> fl ! j = 0"
        using IH True by (cases "j = l0") auto
    qed
    then show ?thesis using IH by auto
  next
    case False
    then show ?thesis
      using "1.prems" by (subst (asm) find_freelist.simps) (auto split: if_splits)
  qed
qed

lemma allocate_loop_remove:
  assumes "find_freelist (m_chunk_size s) (m_freelist s) l_exp = Inr l"
    and "0 < m_chunk_size s ! l"
    and "m_freelist s ! l \<noteq> KOKKOS_MEMPOOLLIST_LOCK"
  shows "allocate_loop pe s l_exp n =
    (case subdivide (s\<lparr>m_freelist := (m_freelist s)[l := m_next s (m_freelist s ! l)],
                        m_next := (m_next s)(m_freelist s ! l := 0)\<rparr>) (m_freelist s ! l) l l_exp of
       None \<Rightarrow> None
     | Some (Inl e) \<Rightarrow> Some (Inl e)
     | Some (Inr s4) \<Rightarrow> Some (Inr (m_freelist s ! l, l, n, s4)))"
proof -
  have "l < length (m_freelist s)" "m_freelist s ! l \<noteq> 0"
    using find_freelist_Inr[OF assms(1)] assms(2) by auto
  then show ?thesis
    using assms by (subst allocate_loop.simps) (simp add: atomic_compare_exchange_def Let_def)
qed

lemma allocate_loop_locked_aux:
  assumes "allocate_loop pe s l_exp n = Some y"
  shows "\<not> (\<exists>l. find_freelist (m_chunk_size s) (m_freelist s) l_exp = Inr l \<and>
               0 < m_chunk_size s ! l \<and> m_freelist s ! l = KOKKOS_MEMPOOLLIST_LOCK)"
proof (rule allocate_loop.raw_induct
    [where P = "\<lambda>pe s l_exp n y. \<not> (\<exists>l. find_freelist (m_chunk_size s) (m_freelist s) l_exp = Inr l \<and>
               0 < m_chunk_size s ! l \<and> m_freelist s ! l = KOKKOS_MEMPOOLLIST_LOCK)",
     OF _ assms], goal_cases)
  case (1 f pe s l_exp n y)
  show ?case
  proof
    assume "\<exists>l. find_freelist (m_chunk_size s) (m_freelist s) l_exp = Inr l \<and>
               0 < m_chunk_size s ! l \<and> m_freelist s ! l = KOKKOS_MEMPOOLLIST_LOCK"
    then obtain l where l: "find_freelist (m_chunk_size s) (m_freelist s) l_exp = Inr l"
      "0 < m_chunk_size s ! l" "m_freelist s ! l = KOKKOS_MEMPOOLLIST_LOCK" by blast
    then have "f pe s l_exp n = Some y" using 1(2) by (simp add: Let_def)
    then show False using 1(1) l by blast
  qed
qed

lemma allocate_loop_locked:
  assumes "find_freelist (m_chunk_size s) (m_freelist s) l_exp = Inr l"
    and "0 < m_chunk_size s ! l"
    and "m_freelist s ! l = KOKKOS_MEMPOOLLIST_LOCK"
  shows "allocate_loop pe s l_exp n = None"
  using allocate_loop_locked_aux[of pe s l_exp n] assms
  by (cases "allocate_loop pe s l_exp n") auto

lemma allocate_loop_exhausted:
  assumes "find_freelist (m_chunk_size s) (m_freelist s) l_exp = Inr l"
    and "m_chunk_size s ! l = 0"
  shows "n \<le> 100000 \<Longrightarrow> allocate_loop pe s l_exp n =
    (if pe then Some (Inl NO_CHUNKS_BIG_ENOUGH) else Some (Inr (0, l, 100000, s)))"
proof (induction "100000 - n" arbitrary: n)
  case 0
  then have "n = 100000" by simp
  then show ?case using assms by (subst allocate_loop.simps) simp
next
  case (Suc k)
  then have "n \<noteq> 100000" "n + 1 \<le> 100000" "k = 100000 - (n + 1)" by auto
  then have "allocate_loop pe s l_exp n = allocate_loop pe s l_exp (n + 1)"
    using assms by (subst allocate_loop.simps) simp
  then show ?case using Suc.hyps(1)[of "n + 1"] \<open>n + 1 \<le> 100000\<close> \<open>k = 100000 - (n + 1)\<close> by simp
qed

lemma allocate_loop_overrun:
  assumes "find_freelist (m_chunk_size s) (m_freelist s) l_exp = Inl e"
  shows "allocate_loop pe s l_exp n = Some (Inl e)"
  using assms by (subst allocate_loop.simps) simp

lemma insert_list_result:
  assumes "insert_list s lp_head lp_tail list = Some y"
  shows "y = Inl OUT_OF_BOUNDS \<or> (\<exists>s'. y = Inr s')"
proof (rule insert_list.raw_induct
    [where P = "\<lambda>s h t l y. y = Inl OUT_OF_BOUNDS \<or> (\<exists>s'. y = Inr s')", OF _ assms], goal_cases)
  case (1 f s h t l y)
  then show ?case
    by (auto simp: Let_def atomic_compare_exchange_def split: if_splits)
qed

lemma subdivide_result:
  assumes "subdivide s p l l_exp = Some y"
  shows "y = Inl OUT_OF_BOUNDS \<or> (\<exists>s'. y = Inr s')"
  using assms insert_list_result
  by (auto simp: subdivide_def Let_def split: if_splits)

lemma find_freelist_Inl: "find_freelist cs fl l0 = Inl e \<Longrightarrow> e = OUT_OF_BOUNDS"
proof (induction cs fl l0 rule: find_freelist.induct)
  case (1 cs fl l0)
  from "1.prems" show ?case
    by (subst (asm) find_freelist.simps) (auto split: if_splits dest: "1.IH")
qed

lemma find_chunk_size_Inl: "find_chunk_size cs a l0 = Inl e \<Longrightarrow> e = OUT_OF_BOUNDS"
proof (induction cs a l0 rule: find_chunk_size.induct)
  case (1 cs a l0)
  from "1.prems" show ?case
    by (subst (asm) find_chunk_size.simps) (auto split: if_splits dest: "1.IH")
qed

lemma allocate_loop_errors:
  assumes "allocate_loop pe s l_exp n = Some y"
  shows "y \<noteq> Inl REQUESTED_SIZE_TOO_LARGE"
proof (rule allocate_loop.raw_induct
    [where P = "\<lambda>pe s l_exp n y. y \<noteq> Inl REQUESTED_SIZE_TOO_LARGE", OF _ assms], goal_cases)
  case (1 f pe s l_exp n y)
  then show ?case
    by (auto simp: Let_def atomic_compare_exchange_def
        split: if_splits sum.splits option.splits dest: subdivide_result find_freelist_Inl)
qed

subsection \<open>The class a request is rounded up to\<close>

text \<open>
  Claim C1. The table holds the positive class sizes followed by the zero sentinel. For
  every request size, the scan of \<open>allocate\<close> stops at the least index \<open>e\<close> whose
  chunk size is at least the request, or at the sentinel when every class is smaller.
  With \<open>KOKKOS_MEMPOOLLIST_PRINTERR\<close> defined, \<open>allocate\<close> ends with
  \<open>REQUESTED_SIZE_TOO_LARGE\<close> exactly when the request exceeds every class size; so a
  request of the largest class size does not, and one byte more does.
\<close>

theorem allocate_selects_minimal_class:
  assumes table: "m_chunk_size s = sizes @ [0]" and pos: "\<forall>c\<in>set sizes. 0 < c"
  shows "\<exists>e. find_chunk_size (m_chunk_size s) alloc_size 0 = Inr e \<and> e \<le> length sizes \<and>
           (\<forall>j<e. sizes ! j < alloc_size) \<and>
           (e < length sizes \<longrightarrow> alloc_size \<le> sizes ! e) \<and>
           (e = length sizes \<longleftrightarrow> (\<forall>c\<in>set sizes. c < alloc_size)) \<and>
           (allocate True s alloc_size = Some (Inl REQUESTED_SIZE_TOO_LARGE)
              \<longleftrightarrow> (\<forall>c\<in>set sizes. c < alloc_size))"
proof -
  obtain e where e: "find_chunk_size (sizes @ [0]) alloc_size 0 = Inr e" "e \<le> length sizes"
      "\<forall>j<e. sizes ! j < alloc_size" "e < length sizes \<longrightarrow> alloc_size \<le> sizes ! e"
    using find_chunk_size_scan[OF pos, of 0 alloc_size] by auto
  have all: "e = length sizes \<longleftrightarrow> (\<forall>c\<in>set sizes. c < alloc_size)"
  proof
    assume "e = length sizes"
    then show "\<forall>c\<in>set sizes. c < alloc_size" using e(3) by (auto simp: in_set_conv_nth)
  next
    assume a: "\<forall>c\<in>set sizes. c < alloc_size"
    show "e = length sizes"
    proof (rule ccontr)
      assume "e \<noteq> length sizes"
      then have "e < length sizes" using e(2) by simp
      then show False using e(4) a nth_mem[of e sizes] by fastforce
    qed
  qed
  have sentinel: "m_chunk_size s ! e = 0 \<longleftrightarrow> e = length sizes"
    using e(2) pos table by (cases "e = length sizes") (auto simp: nth_append)
  have "allocate True s alloc_size = Some (Inl REQUESTED_SIZE_TOO_LARGE) \<longleftrightarrow> m_chunk_size s ! e = 0"
  proof (cases "m_chunk_size s ! e = 0")
    case True
    then show ?thesis using e(1) table by (simp add: allocate_def)
  next
    case False
    then show ?thesis using e(1) table allocate_loop_errors[of True s e 0]
      by (auto simp: allocate_def split: option.splits sum.splits)
  qed
  then show ?thesis using e all sentinel table by auto
qed

theorem allocate_selects_minimal_class_witness:
  "m_chunk_size example_pool = [64, 256, 1024] @ [0] \<and>
   find_chunk_size (m_chunk_size example_pool) 1024 0 = Inr 2 \<and>
   allocate True example_pool 1024 \<noteq> Some (Inl REQUESTED_SIZE_TOO_LARGE) \<and>
   allocate True example_pool 1025 = Some (Inl REQUESTED_SIZE_TOO_LARGE)"
proof -
  have t: "m_chunk_size example_pool = [64, 256, 1024] @ [0]" by (simp add: example_pool_def)
  have p: "\<forall>c\<in>set [64, 256, 1024 :: nat]. 0 < c" by simp
  have f: "find_chunk_size (m_chunk_size example_pool) 1024 0 = Inr 2"
    by (simp add: example_pool_def find_chunk_size.simps)
  show ?thesis
    using allocate_selects_minimal_class[OF t p, of 1024]
      allocate_selects_minimal_class[OF t p, of 1025] t f by simp
qed

subsection \<open>Splitting a larger chunk\<close>

lemma link_chunks_other:
  "(\<And>k. i \<le> k \<Longrightarrow> k < n \<Longrightarrow> a \<noteq> p + (k - 1) * sz) \<Longrightarrow> link_chunks mem p sz n i a = mem a"
proof (induction mem p sz n i rule: link_chunks.induct)
  case (1 mem p sz n i)
  show ?case
  proof (cases "i < n")
    case True
    have "link_chunks mem p sz n i a = link_chunks (mem(p + (i - 1) * sz := p + i * sz)) p sz n (Suc i) a"
      using True by (subst link_chunks.simps) simp
    also have "\<dots> = (mem(p + (i - 1) * sz := p + i * sz)) a"
      using True "1.prems" by (intro "1.IH") auto
    also have "\<dots> = mem a" using "1.prems"[of i] True by simp
    finally show ?thesis .
  next
    case False
    then show ?thesis by (subst link_chunks.simps) simp
  qed
qed

lemma link_chunks_linked:
  "0 < sz \<Longrightarrow> 1 \<le> i \<Longrightarrow> i \<le> k \<Longrightarrow> k < n \<Longrightarrow>
     link_chunks mem p sz n i (p + (k - 1) * sz) = p + k * sz"
proof (induction mem p sz n i rule: link_chunks.induct)
  case (1 mem p sz n i)
  have lt: "i < n" using "1.prems" by simp
  have step: "link_chunks mem p sz n i (p + (k - 1) * sz) =
      link_chunks (mem(p + (i - 1) * sz := p + i * sz)) p sz n (Suc i) (p + (k - 1) * sz)"
    using lt by (subst link_chunks.simps) simp
  show ?case
  proof (cases "k = i")
    case True
    have "\<And>j. Suc i \<le> j \<Longrightarrow> j < n \<Longrightarrow> p + (k - 1) * sz \<noteq> p + (j - 1) * sz"
      using True "1.prems" by auto
    then have "link_chunks (mem(p + (i - 1) * sz := p + i * sz)) p sz n (Suc i) (p + (k - 1) * sz)
        = (mem(p + (i - 1) * sz := p + i * sz)) (p + (k - 1) * sz)"
      by (rule link_chunks_other)
    then show ?thesis using step True by simp
  next
    case False
    have "link_chunks (mem(p + (i - 1) * sz := p + i * sz)) p sz n (Suc i) (p + (k - 1) * sz)
        = p + k * sz"
      by (rule "1.IH"[OF lt]) (use "1.prems" False in auto)
    then show ?thesis using step by (simp only:)
  qed
qed


lemma chain_after_split:
  assumes sz: "0 < sz" and j: "1 \<le> j" "j < n"
    and m: "m' = (link_chunks m p sz n 2)(p + (n - 1) * sz := 0)"
  shows "chain m' (p + j * sz) (map (\<lambda>i. p + i * sz) [j..<n])"
  using j
proof (induction "n - j" arbitrary: j)
  case 0
  then show ?case by simp
next
  case (Suc d)
  have up: "[j..<n] = j # [Suc j..<n]" using Suc.prems by (simp add: upt_conv_Cons)
  have nz: "p + j * sz \<noteq> 0" using sz Suc.prems by simp
  show ?case
  proof (cases "Suc j = n")
    case True
    then have "m' (p + j * sz) = 0" using m by auto
    then show ?thesis using up nz True by simp
  next
    case False
    then have lt: "Suc j < n" using Suc.prems by simp
    have "p + j * sz \<noteq> p + (n - 1) * sz" using sz lt by simp
    then have "m' (p + j * sz) = link_chunks m p sz n 2 (p + (Suc j - 1) * sz)"
      using m by simp
    also have "\<dots> = p + Suc j * sz"
      using sz lt Suc.prems by (intro link_chunks_linked) auto
    finally have nx: "m' (p + j * sz) = p + Suc j * sz" .
    have "chain m' (p + Suc j * sz) (map (\<lambda>i. p + i * sz) [Suc j..<n])"
      using Suc.hyps(1)[of "Suc j"] Suc.hyps(2) lt by simp
    then show ?thesis using up nz nx by simp
  qed
qed

lemma allocate_loop_split:
  assumes scan: "find_freelist (m_chunk_size s) (m_freelist s) l_exp = Inr l"
    and gt: "l_exp < l"
    and pos: "0 < m_chunk_size s ! l"
    and unlocked: "m_freelist s ! l \<noteq> KOKKOS_MEMPOOLLIST_LOCK"
    and n: "2 \<le> m_chunk_size s ! l div m_chunk_size s ! l_exp"
  shows "\<exists>s'. allocate_loop pe s l_exp k = Some (Inr (m_freelist s ! l, l, k, s')) \<and>
     m_chunk_size s' = m_chunk_size s \<and> m_data s' = m_data s \<and>
     m_data_size s' = m_data_size s \<and>
     m_freelist s' = (m_freelist s)[l := m_next s (m_freelist s ! l),
                                   l_exp := m_freelist s ! l + m_chunk_size s ! l_exp] \<and>
     chain (m_next s') (m_freelist s' ! l_exp)
       (map (\<lambda>i. m_freelist s ! l + i * m_chunk_size s ! l_exp)
          [1..<m_chunk_size s ! l div m_chunk_size s ! l_exp])"
proof -
  define p where "p = m_freelist s ! l"
  define sz where "sz = m_chunk_size s ! l_exp"
  define num where "num = m_chunk_size s ! l div sz"
  define s3 where "s3 = s\<lparr>m_freelist := (m_freelist s)[l := m_next s p], m_next := (m_next s)(p := 0)\<rparr>"
  note F = find_freelist_Inr[OF scan]
  have p0: "p \<noteq> 0" and ll: "l < length (m_freelist s)" using F pos by (auto simp: p_def)
  have e: "0 < sz" "l_exp < length (m_freelist s)" "m_freelist s ! l_exp = 0"
    using F gt by (auto simp: sz_def)
  have num2: "2 \<le> num" using n by (simp add: num_def sz_def)
  have dec: "size_t_dec num = num - 1" using num2 by (simp add: size_t_dec_def)
  have h3: "m_freelist s3 ! l_exp = 0" "l_exp < length (m_freelist s3)"
    using e gt by (auto simp: s3_def)
  have lockne: "(0::nat) \<noteq> KOKKOS_MEMPOOLLIST_LOCK" by (simp add: KOKKOS_MEMPOOLLIST_LOCK_def)
  define s' where "s' = s3\<lparr>m_next := (link_chunks (m_next s3) p sz num 2)(p + (num - 1) * sz := 0),
                          m_freelist := (m_freelist s3)[l_exp := p + sz]\<rparr>"
  have sub: "subdivide s3 p l l_exp = Some (Inr s')"
    unfolding subdivide_def using p0 gt
    apply (simp add: Let_def)
    apply (subst insert_list_free)
    using h3 lockne apply (simp_all add: s3_def s'_def sz_def num_def dec[unfolded num_def sz_def])
    done
  have loop: "allocate_loop pe s l_exp k = Some (Inr (p, l, k, s'))"
    using allocate_loop_remove[OF scan pos unlocked, of pe k] sub
    by (simp add: p_def s3_def)
  have ch: "chain (m_next s') (p + 1 * sz) (map (\<lambda>i. p + i * sz) [1..<num])"
    by (rule chain_after_split[OF e(1) _ _ , where m = "m_next s3"]) (use num2 in \<open>auto simp: s'_def\<close>)
  have hd: "m_freelist s' ! l_exp = p + sz" using h3 by (simp add: s'_def)
  show ?thesis
    using loop ch hd by (auto simp: s'_def s3_def p_def sz_def num_def)
qed



text \<open>
  Claim C2, where the claim fails. In \<open>bug_pool\<close> a request of 64 bytes fits class 0,
  whose list is empty, so the chunk at 1000 of class 1 (100 bytes) is removed and
  \<open>n = 100 div 64 = 1\<close>. The claim promises \<open>n - 1 = 0\<close> inserted chunks. The code calls
  \<open>insert_list\<close> all the same, with head \<open>p + 64\<close> and tail \<open>p\<close>: list 0, empty before,
  now holds the address 1064, which is no sub-chunk of the removed chunk (it ends at
  1128, beyond 1100), and the link field of the returned chunk was written.
  For \<open>n \<ge> 2\<close> the code does what the claim says: lemma \<open>allocate_loop_split\<close> above.
\<close>

theorem allocate_split_single_subchunk:
  "find_chunk_size (m_chunk_size bug_pool) 64 0 = Inr 0 \<and>
   find_freelist (m_chunk_size bug_pool) (m_freelist bug_pool) 0 = Inr 1 \<and>
   m_chunk_size bug_pool ! 1 div m_chunk_size bug_pool ! 0 = 1 \<and>
   m_freelist bug_pool ! 0 = 0 \<and>
   (\<exists>s'. allocate True bug_pool 64 = Some (Inr (1000, s')) \<and>
         m_freelist s' = [1064, 1100, 0] \<and>
         chain (m_next s') (m_freelist s' ! 0) [1064])"
proof -
  have "allocate True bug_pool 64 =
      Some (Inr (1000, bug_pool\<lparr>m_freelist := [1064, 1100, 0], m_next := (\<lambda>a. 0)\<rparr>))"
    apply (simp add: allocate_def bug_pool_def find_chunk_size.simps)
    apply (subst allocate_loop.simps)
    apply (simp add: find_freelist.simps KOKKOS_MEMPOOLLIST_LOCK_def atomic_compare_exchange_def
        Let_def subdivide_def size_t_dec_def link_chunks.simps)
    apply (subst insert_list.simps)
    apply (simp add: KOKKOS_MEMPOOLLIST_LOCK_def atomic_compare_exchange_def Let_def fun_eq_iff)
    done
  then show ?thesis
    by (simp add: bug_pool_def find_chunk_size.simps find_freelist.simps)
qed

subsection \<open>Releasing a chunk\<close>

lemma insert_list_tail_link:
  "insert_list (s\<lparr>m_next := (m_next s)(lp_tail := v)\<rparr>) lp_head lp_tail list =
   insert_list s lp_head lp_tail list"
proof (cases "length (m_freelist s) \<le> list")
  case True
  then show ?thesis by (simp add: insert_list_oob)
next
  case False
  show ?thesis
  proof (cases "m_freelist s ! list = KOKKOS_MEMPOOLLIST_LOCK")
    case True
    then show ?thesis using False by (simp add: insert_list_locked)
  next
    case unlocked: False
    then show ?thesis using False by (simp add: insert_list_free)
  qed
qed

text \<open>The class that the scan of line 287 (and of line 135) finds.\<close>

lemma find_chunk_size_class:
  assumes table: "m_chunk_size s = sizes @ [0]" and pos: "\<forall>c\<in>set sizes. 0 < c"
  shows "\<exists>e. find_chunk_size (m_chunk_size s) a 0 = Inr e \<and> e \<le> length sizes \<and>
           (\<forall>j<e. sizes ! j < a) \<and> (e < length sizes \<longrightarrow> a \<le> sizes ! e) \<and>
           (e = length sizes \<longleftrightarrow> (\<forall>c\<in>set sizes. c < a)) \<and>
           (m_chunk_size s ! e = 0 \<longleftrightarrow> e = length sizes)"
proof -
  obtain e where e: "find_chunk_size (sizes @ [0]) a 0 = Inr e" "e \<le> length sizes"
      "\<forall>j<e. sizes ! j < a" "e < length sizes \<longrightarrow> a \<le> sizes ! e"
    using find_chunk_size_scan[OF pos, of 0 a] by auto
  have all: "e = length sizes \<longleftrightarrow> (\<forall>c\<in>set sizes. c < a)"
  proof
    assume "e = length sizes"
    then show "\<forall>c\<in>set sizes. c < a" using e(3) by (auto simp: in_set_conv_nth)
  next
    assume a: "\<forall>c\<in>set sizes. c < a"
    show "e = length sizes"
    proof (rule ccontr)
      assume "e \<noteq> length sizes"
      then have "e < length sizes" using e(2) by simp
      then show False using e(4) a nth_mem[of e sizes] by fastforce
    qed
  qed
  have sentinel: "m_chunk_size s ! e = 0 \<longleftrightarrow> e = length sizes"
    using e(2) pos table by (cases "e = length sizes") (auto simp: nth_append)
  show ?thesis using e all sentinel table by auto
qed

text \<open>
  \<open>deallocate\<close> in its three cases, for either setting of
  \<open>KOKKOS_MEMPOOLLIST_PRINTERR\<close>, where the size fits a class \<open>e\<close> or none.
\<close>

lemma deallocate_unfold:
  assumes e: "find_chunk_size (m_chunk_size s) alloc_size 0 = Inr e"
  shows "deallocate pe s alloc_ptr alloc_size =
     (if pe \<and> (alloc_ptr < m_data s \<or>
                ptr_add (m_data s) (m_data_size s) < ptr_add alloc_ptr alloc_size)
      then Some (Inl ADDRESS_OUT_OF_RANGE)
      else if pe \<and> m_chunk_size s ! e = 0 then Some (Inl CHUNK_TOO_LARGE)
      else insert_list s alloc_ptr alloc_ptr e)"
  using e by (auto simp: deallocate_def)

text \<open>
  Claim C9. \<open>insert_list\<close> writes the head it observed into the link field of the tail
  before its compare-and-swap, so what that field held before does not matter: a call
  gives the same result whatever value \<open>v\<close> the field holds on entry, and so does
  \<open>deallocate\<close> of a chunk whose first word the caller has overwritten. Where the head is
  not \<open>Locked\<close> the call of \<open>insert_list\<close> returns, the head of the list is the chain's
  head and the tail links to the previous head. And \<open>deallocate\<close> of a chunk in the
  arena, with a size that fits class \<open>l\<close> whose head is not \<open>Locked\<close>, returns with the
  chunk as the head of list \<open>l\<close> and its link field holding the previous head of that
  list: the pool it leaves is the one it would leave had the caller not written \<open>v\<close>.
\<close>

theorem insert_list_overwrites_tail_link:
  "insert_list (s\<lparr>m_next := (m_next s)(lp_tail := v)\<rparr>) lp_head lp_tail list =
     insert_list s lp_head lp_tail list \<and>
   deallocate pe (s\<lparr>m_next := (m_next s)(alloc_ptr := v)\<rparr>) alloc_ptr alloc_size =
     deallocate pe s alloc_ptr alloc_size \<and>
   (list < length (m_freelist s) \<and> m_freelist s ! list \<noteq> KOKKOS_MEMPOOLLIST_LOCK \<longrightarrow>
     (\<exists>s'. insert_list (s\<lparr>m_next := (m_next s)(lp_tail := v)\<rparr>) lp_head lp_tail list
             = Some (Inr s') \<and>
           m_freelist s' ! list = lp_head \<and>
           m_next s' lp_tail = m_freelist s ! list)) \<and>
   (m_chunk_size s = sizes @ [0] \<and> (\<forall>c\<in>set sizes. 0 < c) \<and>
    length (m_freelist s) = length (m_chunk_size s) \<and>
    m_data s \<le> alloc_ptr \<and>
    ptr_add alloc_ptr alloc_size \<le> ptr_add (m_data s) (m_data_size s) \<and>
    \<not> (\<forall>c\<in>set sizes. c < alloc_size) \<longrightarrow>
     (\<exists>l. l < length sizes \<and> alloc_size \<le> sizes ! l \<and> (\<forall>j<l. sizes ! j < alloc_size) \<and>
          (m_freelist s ! l \<noteq> KOKKOS_MEMPOOLLIST_LOCK \<longrightarrow>
             deallocate pe (s\<lparr>m_next := (m_next s)(alloc_ptr := v)\<rparr>) alloc_ptr alloc_size =
               Some (Inr (s\<lparr>m_next := (m_next s)(alloc_ptr := m_freelist s ! l),
                           m_freelist := (m_freelist s)[l := alloc_ptr]\<rparr>)))))"
proof -
  have indep: "deallocate pe (s\<lparr>m_next := (m_next s)(alloc_ptr := v)\<rparr>) alloc_ptr alloc_size =
     deallocate pe s alloc_ptr alloc_size"
    by (simp add: deallocate_def insert_list_tail_link cong: sum.case_cong if_cong)
  have push: "\<exists>l. l < length sizes \<and> alloc_size \<le> sizes ! l \<and> (\<forall>j<l. sizes ! j < alloc_size) \<and>
          (m_freelist s ! l \<noteq> KOKKOS_MEMPOOLLIST_LOCK \<longrightarrow>
             deallocate pe (s\<lparr>m_next := (m_next s)(alloc_ptr := v)\<rparr>) alloc_ptr alloc_size =
               Some (Inr (s\<lparr>m_next := (m_next s)(alloc_ptr := m_freelist s ! l),
                           m_freelist := (m_freelist s)[l := alloc_ptr]\<rparr>)))"
    if h: "m_chunk_size s = sizes @ [0] \<and> (\<forall>c\<in>set sizes. 0 < c) \<and>
      length (m_freelist s) = length (m_chunk_size s) \<and>
      m_data s \<le> alloc_ptr \<and>
      ptr_add alloc_ptr alloc_size \<le> ptr_add (m_data s) (m_data_size s) \<and>
      \<not> (\<forall>c\<in>set sizes. c < alloc_size)"
  proof -
    from h have table: "m_chunk_size s = sizes @ [0]" by (rule conjunct1)
    from h have pos: "\<forall>c\<in>set sizes. 0 < c" by (rule conjunct2[THEN conjunct1])
    from h have heads: "length (m_freelist s) = length (m_chunk_size s)"
      by (rule conjunct2[THEN conjunct2, THEN conjunct1])
    from h have lo: "m_data s \<le> alloc_ptr"
      by (rule conjunct2[THEN conjunct2, THEN conjunct2, THEN conjunct1])
    from h have hi: "ptr_add alloc_ptr alloc_size \<le> ptr_add (m_data s) (m_data_size s)"
      by (rule conjunct2[THEN conjunct2, THEN conjunct2, THEN conjunct2, THEN conjunct1])
    from h have fit: "\<not> (\<forall>c\<in>set sizes. c < alloc_size)"
      by (rule conjunct2[THEN conjunct2, THEN conjunct2, THEN conjunct2, THEN conjunct2])
    from find_chunk_size_class[OF table pos, of alloc_size] obtain e where
      e0: "find_chunk_size (m_chunk_size s) alloc_size 0 = Inr e \<and> e \<le> length sizes \<and>
        (\<forall>j<e. sizes ! j < alloc_size) \<and> (e < length sizes \<longrightarrow> alloc_size \<le> sizes ! e) \<and>
        (e = length sizes \<longleftrightarrow> (\<forall>c\<in>set sizes. c < alloc_size)) \<and>
        (m_chunk_size s ! e = 0 \<longleftrightarrow> e = length sizes)" ..
    note e = e0[THEN conjunct1] e0[THEN conjunct2, THEN conjunct1]
       e0[THEN conjunct2, THEN conjunct2, THEN conjunct1]
       e0[THEN conjunct2, THEN conjunct2, THEN conjunct2, THEN conjunct1]
       e0[THEN conjunct2, THEN conjunct2, THEN conjunct2, THEN conjunct2, THEN conjunct1]
       e0[THEN conjunct2, THEN conjunct2, THEN conjunct2, THEN conjunct2, THEN conjunct2]
    have ne: "e \<noteq> length sizes" using fit e(5) by simp
    then have lt: "e < length sizes" using e(2) by simp
    have el: "e < length (m_freelist s)" using lt heads table by simp
    have nr: "\<not> (pe \<and> (alloc_ptr < m_data s \<or>
        ptr_add (m_data s) (m_data_size s) < ptr_add alloc_ptr alloc_size))"
      using lo hi by simp
    have nz: "\<not> (pe \<and> m_chunk_size s ! e = 0)" using e(6) ne by simp
    have "deallocate pe s alloc_ptr alloc_size = insert_list s alloc_ptr alloc_ptr e"
      by (simp only: deallocate_unfold[OF e(1)] nr nz if_False)
    then have d: "deallocate pe (s\<lparr>m_next := (m_next s)(alloc_ptr := v)\<rparr>) alloc_ptr alloc_size =
        insert_list s alloc_ptr alloc_ptr e"
      by (simp only: indep)
    have "m_freelist s ! e \<noteq> KOKKOS_MEMPOOLLIST_LOCK \<longrightarrow>
        deallocate pe (s\<lparr>m_next := (m_next s)(alloc_ptr := v)\<rparr>) alloc_ptr alloc_size =
               Some (Inr (s\<lparr>m_next := (m_next s)(alloc_ptr := m_freelist s ! e),
                           m_freelist := (m_freelist s)[e := alloc_ptr]\<rparr>))"
      using insert_list_free[OF el, of alloc_ptr alloc_ptr] by (simp only: d) blast
    then show ?thesis using lt e(3,4) by blast
  qed
  have ins: "\<exists>s'. insert_list (s\<lparr>m_next := (m_next s)(lp_tail := v)\<rparr>) lp_head lp_tail list
             = Some (Inr s') \<and>
           m_freelist s' ! list = lp_head \<and>
           m_next s' lp_tail = m_freelist s ! list"
    if "list < length (m_freelist s) \<and> m_freelist s ! list \<noteq> KOKKOS_MEMPOOLLIST_LOCK"
    using that by (simp add: insert_list_tail_link insert_list_free)
  show ?thesis
    by (intro conjI impI) (rule insert_list_tail_link, rule indep, erule ins, erule push)
qed

theorem insert_list_overwrites_tail_link_witness:
  "2 < length (m_freelist example_pool) \<and>
   m_freelist example_pool ! 2 \<noteq> KOKKOS_MEMPOOLLIST_LOCK \<and>
   (\<exists>s'. insert_list (example_pool\<lparr>m_next := (m_next example_pool)(8192 := 12345)\<rparr>) 8192 8192 2
           = Some (Inr s') \<and>
         m_freelist s' ! 2 = 8192 \<and> m_next s' 8192 = 4096) \<and>
   deallocate True
     (example_pool\<lparr>m_freelist := [0, 0, 5120, 0],
                    m_next := (m_next example_pool)(4096 := 12345)\<rparr>) 4096 1024 =
     Some (Inr (example_pool\<lparr>m_freelist := [0, 0, 4096, 0],
                              m_next := (m_next example_pool)(4096 := 5120)\<rparr>))"
proof -
  have a: "2 < length (m_freelist example_pool)"
    and b: "m_freelist example_pool ! 2 \<noteq> KOKKOS_MEMPOOLLIST_LOCK"
    and c: "m_freelist example_pool ! 2 = 4096"
    by (simp_all add: example_pool_def KOKKOS_MEMPOOLLIST_LOCK_def)
  from insert_list_overwrites_tail_link[of example_pool 8192 12345 8192 2 True 8192 1024] a b
  have "\<exists>s'. insert_list (example_pool\<lparr>m_next := (m_next example_pool)(8192 := 12345)\<rparr>) 8192 8192 2
           = Some (Inr s') \<and>
         m_freelist s' ! 2 = 8192 \<and> m_next s' 8192 = m_freelist example_pool ! 2"
    by blast
  then have first: "\<exists>s'. insert_list (example_pool\<lparr>m_next := (m_next example_pool)(8192 := 12345)\<rparr>) 8192 8192 2
           = Some (Inr s') \<and>
         m_freelist s' ! 2 = 8192 \<and> m_next s' 8192 = 4096"
    by (simp only: c)
  define s where "s = example_pool\<lparr>m_freelist := [0, 0, 5120, 0]\<rparr>"
  have h: "m_chunk_size s = [64, 256, 1024] @ [0] \<and> (\<forall>c\<in>set [64, 256, 1024 :: nat]. 0 < c) \<and>
      length (m_freelist s) = length (m_chunk_size s) \<and>
      m_data s \<le> 4096 \<and>
      ptr_add 4096 1024 \<le> ptr_add (m_data s) (m_data_size s) \<and>
      \<not> (\<forall>c\<in>set [64, 256, 1024 :: nat]. c < 1024)"
    by (simp add: s_def example_pool_def ptr_add_def)
  from insert_list_overwrites_tail_link[of s 8192 12345 8192 2 True 4096 1024 "[64, 256, 1024]",
      THEN conjunct2, THEN conjunct2, THEN conjunct2, THEN mp, OF h]
  obtain l where l: "l < length [64, 256, 1024 :: nat]" "1024 \<le> [64, 256, 1024 :: nat] ! l"
    "m_freelist s ! l \<noteq> KOKKOS_MEMPOOLLIST_LOCK \<longrightarrow>
       deallocate True (s\<lparr>m_next := (m_next s)(4096 := 12345)\<rparr>) 4096 1024 =
         Some (Inr (s\<lparr>m_next := (m_next s)(4096 := m_freelist s ! l),
                     m_freelist := (m_freelist s)[l := 4096]\<rparr>))"
    by blast
  have "l = 2" using l(1,2) by (auto simp: less_Suc_eq numeral_3_eq_3 nth_Cons')
  then have second: "deallocate True
     (example_pool\<lparr>m_freelist := [0, 0, 5120, 0],
                    m_next := (m_next example_pool)(4096 := 12345)\<rparr>) 4096 1024 =
     Some (Inr (example_pool\<lparr>m_freelist := [0, 0, 4096, 0],
                              m_next := (m_next example_pool)(4096 := 5120)\<rparr>))"
    using l(3) by (simp add: s_def example_pool_def KOKKOS_MEMPOOLLIST_LOCK_def)
  show ?thesis using a b first second by blast
qed

text \<open>
  Claim C6 as stated fails: with \<open>KOKKOS_MEMPOOLLIST_PRINTERR\<close> defined the range check
  of lines 270 to 282 comes first, so a size above the largest class together with an
  address outside the arena ends in \<open>ADDRESS_OUT_OF_RANGE\<close>, not in \<open>CHUNK_TOO_LARGE\<close>.
\<close>

theorem deallocate_invalid_size_counterexample:
  "m_chunk_size example_pool = [64, 256, 1024, 0] \<and> (1024 :: nat) < 2000 \<and>
   deallocate True example_pool 0 2000 = Some (Inl ADDRESS_OUT_OF_RANGE) \<and>
   deallocate True example_pool 0 2000 \<noteq> Some (Inl CHUNK_TOO_LARGE)"
  by (simp add: deallocate_def example_pool_def ptr_add_def)

text \<open>
  Claim C6, amended. With \<open>KOKKOS_MEMPOOLLIST_PRINTERR\<close> defined, \<open>deallocate\<close> ends in
  \<open>ADDRESS_OUT_OF_RANGE\<close> exactly when the address is below the arena or the sum of
  address and size, as the machine computes it, is above the sum of the arena's base
  and length. It ends in \<open>CHUNK_TOO_LARGE\<close> exactly when that check passes and the size
  exceeds every class. Otherwise it is the call \<open>insert_list ptr ptr l\<close> for the least
  class \<open>l\<close> whose chunk size is at least the size, and where the head of that list is
  not \<open>Locked\<close> it returns with the link field of \<open>ptr\<close> holding the previous head, \<open>ptr\<close>
  as the head of list \<open>l\<close>, and every other list head, the table and the rest of the
  link memory as they were.
\<close>

theorem deallocate_pushes_single_chunk:
  assumes table: "m_chunk_size s = sizes @ [0]" and pos: "\<forall>c\<in>set sizes. 0 < c"
    and heads: "length (m_freelist s) = length (m_chunk_size s)"
  shows "(deallocate True s alloc_ptr alloc_size = Some (Inl ADDRESS_OUT_OF_RANGE) \<longleftrightarrow>
            alloc_ptr < m_data s \<or>
            ptr_add (m_data s) (m_data_size s) < ptr_add alloc_ptr alloc_size) \<and>
         (deallocate True s alloc_ptr alloc_size = Some (Inl CHUNK_TOO_LARGE) \<longleftrightarrow>
            m_data s \<le> alloc_ptr \<and>
            ptr_add alloc_ptr alloc_size \<le> ptr_add (m_data s) (m_data_size s) \<and>
            (\<forall>c\<in>set sizes. c < alloc_size)) \<and>
         (m_data s \<le> alloc_ptr \<and>
          ptr_add alloc_ptr alloc_size \<le> ptr_add (m_data s) (m_data_size s) \<and>
          \<not> (\<forall>c\<in>set sizes. c < alloc_size) \<longrightarrow>
            (\<exists>l. l < length sizes \<and> alloc_size \<le> sizes ! l \<and> (\<forall>j<l. sizes ! j < alloc_size) \<and>
                 deallocate True s alloc_ptr alloc_size = insert_list s alloc_ptr alloc_ptr l \<and>
                 (m_freelist s ! l \<noteq> KOKKOS_MEMPOOLLIST_LOCK \<longrightarrow>
                    deallocate True s alloc_ptr alloc_size =
                      Some (Inr (s\<lparr>m_next := (m_next s)(alloc_ptr := m_freelist s ! l),
                                  m_freelist := (m_freelist s)[l := alloc_ptr]\<rparr>)))))"
proof -
  let ?oor = "alloc_ptr < m_data s \<or>
              ptr_add (m_data s) (m_data_size s) < ptr_add alloc_ptr alloc_size"
  from find_chunk_size_class[OF table pos, of alloc_size] obtain e where
    e0: "find_chunk_size (m_chunk_size s) alloc_size 0 = Inr e \<and> e \<le> length sizes \<and>
      (\<forall>j<e. sizes ! j < alloc_size) \<and> (e < length sizes \<longrightarrow> alloc_size \<le> sizes ! e) \<and>
      (e = length sizes \<longleftrightarrow> (\<forall>c\<in>set sizes. c < alloc_size)) \<and>
      (m_chunk_size s ! e = 0 \<longleftrightarrow> e = length sizes)" ..
  note e = e0[THEN conjunct1] e0[THEN conjunct2, THEN conjunct1]
     e0[THEN conjunct2, THEN conjunct2, THEN conjunct1]
     e0[THEN conjunct2, THEN conjunct2, THEN conjunct2, THEN conjunct1]
     e0[THEN conjunct2, THEN conjunct2, THEN conjunct2, THEN conjunct2, THEN conjunct1]
     e0[THEN conjunct2, THEN conjunct2, THEN conjunct2, THEN conjunct2, THEN conjunct2]
  have el: "e < length (m_freelist s)" using e(2) heads table by simp
  have d: "deallocate True s alloc_ptr alloc_size =
      (if ?oor then Some (Inl ADDRESS_OUT_OF_RANGE)
       else if e = length sizes then Some (Inl CHUNK_TOO_LARGE)
       else insert_list s alloc_ptr alloc_ptr e)"
    using deallocate_unfold[OF e(1), of True alloc_ptr] e(6) by simp
  have ne: "insert_list s alloc_ptr alloc_ptr e \<noteq> Some (Inl CHUNK_TOO_LARGE)"
    "insert_list s alloc_ptr alloc_ptr e \<noteq> Some (Inl ADDRESS_OUT_OF_RANGE)"
    using insert_list_result[of s alloc_ptr alloc_ptr e] by auto
  have first: "deallocate True s alloc_ptr alloc_size = Some (Inl ADDRESS_OUT_OF_RANGE) \<longleftrightarrow> ?oor"
    using d ne by (cases ?oor; cases "e = length sizes") simp_all
  have second: "deallocate True s alloc_ptr alloc_size = Some (Inl CHUNK_TOO_LARGE) \<longleftrightarrow>
      \<not> ?oor \<and> (\<forall>c\<in>set sizes. c < alloc_size)"
    using d ne e(5) by (cases ?oor; cases "e = length sizes") simp_all
  have third: "\<exists>l. l < length sizes \<and> alloc_size \<le> sizes ! l \<and> (\<forall>j<l. sizes ! j < alloc_size) \<and>
                 deallocate True s alloc_ptr alloc_size = insert_list s alloc_ptr alloc_ptr l \<and>
                 (m_freelist s ! l \<noteq> KOKKOS_MEMPOOLLIST_LOCK \<longrightarrow>
                    deallocate True s alloc_ptr alloc_size =
                      Some (Inr (s\<lparr>m_next := (m_next s)(alloc_ptr := m_freelist s ! l),
                                  m_freelist := (m_freelist s)[l := alloc_ptr]\<rparr>)))"
    if "\<not> ?oor" "\<not> (\<forall>c\<in>set sizes. c < alloc_size)"
  proof -
    have "e \<noteq> length sizes" using that(2) e(5) by blast
    then have lt: "e < length sizes" using e(2) by simp
    have "deallocate True s alloc_ptr alloc_size = insert_list s alloc_ptr alloc_ptr e"
      using d that(1) \<open>e \<noteq> length sizes\<close> by simp
    then show ?thesis
      using lt e(3,4) el by (intro exI[of _ e]) (simp add: insert_list_free)
  qed
  have nr: "(m_data s \<le> alloc_ptr \<and>
      ptr_add alloc_ptr alloc_size \<le> ptr_add (m_data s) (m_data_size s)) \<longleftrightarrow> \<not> ?oor"
    by auto
  show ?thesis using first second third nr by blast
qed

theorem deallocate_pushes_single_chunk_witness:
  "deallocate True example_pool 7168 2000 = Some (Inl ADDRESS_OUT_OF_RANGE) \<and>
   deallocate True example_pool 4096 2000 = Some (Inl CHUNK_TOO_LARGE) \<and>
   deallocate True example_pool 4096 18446744073709551615 = Some (Inl CHUNK_TOO_LARGE) \<and>
   deallocate True example_pool 4096 200 =
     Some (Inr (example_pool\<lparr>m_next := (m_next example_pool)(4096 := 0),
                              m_freelist := [0, 4096, 4096, 0]\<rparr>))"
proof -
  have t: "m_chunk_size example_pool = [64, 256, 1024] @ [0]" by (simp add: example_pool_def)
  have p: "\<forall>c\<in>set [64, 256, 1024 :: nat]. 0 < c" by simp
  have h: "length (m_freelist example_pool) = length (m_chunk_size example_pool)"
    by (simp add: example_pool_def)
  note T = deallocate_pushes_single_chunk[OF t p h]
  have "7168 < m_data example_pool \<or>
      ptr_add (m_data example_pool) (m_data_size example_pool) < ptr_add 7168 2000"
    by (simp add: example_pool_def ptr_add_def)
  then have a: "deallocate True example_pool 7168 2000 = Some (Inl ADDRESS_OUT_OF_RANGE)"
    using T[of 7168 2000] by blast
  have "m_data example_pool \<le> 4096 \<and>
      ptr_add 4096 2000 \<le> ptr_add (m_data example_pool) (m_data_size example_pool) \<and>
      (\<forall>c\<in>set [64, 256, 1024 :: nat]. c < 2000)"
    by (simp add: example_pool_def ptr_add_def)
  then have b: "deallocate True example_pool 4096 2000 = Some (Inl CHUNK_TOO_LARGE)"
    using T[of 4096 2000] by blast
  have "m_data example_pool \<le> 4096 \<and>
      ptr_add 4096 18446744073709551615
        \<le> ptr_add (m_data example_pool) (m_data_size example_pool) \<and>
      (\<forall>c\<in>set [64, 256, 1024 :: nat]. c < 18446744073709551615)"
    by (simp add: example_pool_def ptr_add_def)
  then have c: "deallocate True example_pool 4096 18446744073709551615
      = Some (Inl CHUNK_TOO_LARGE)"
    using T[of 4096 18446744073709551615] by blast
  have nb: "m_data example_pool \<le> 4096 \<and>
      ptr_add 4096 200 \<le> ptr_add (m_data example_pool) (m_data_size example_pool) \<and>
      \<not> (\<forall>c\<in>set [64, 256, 1024 :: nat]. c < 200)"
    by (simp add: example_pool_def ptr_add_def)
  from T[of 4096 200, THEN conjunct2, THEN conjunct2, THEN mp, OF nb]
  obtain l where l: "l < length [64, 256, 1024 :: nat]" "200 \<le> [64, 256, 1024 :: nat] ! l"
    "\<forall>j<l. [64, 256, 1024 :: nat] ! j < 200"
    "m_freelist example_pool ! l \<noteq> KOKKOS_MEMPOOLLIST_LOCK \<longrightarrow>
       deallocate True example_pool 4096 200 =
         Some (Inr (example_pool\<lparr>m_next := (m_next example_pool)(4096 := m_freelist example_pool ! l),
                                  m_freelist := (m_freelist example_pool)[l := 4096]\<rparr>))"
    by blast
  have "l = 1" using l(1,2,3) by (auto simp: less_Suc_eq numeral_3_eq_3 nth_Cons')
  then have d: "deallocate True example_pool 4096 200 =
     Some (Inr (example_pool\<lparr>m_next := (m_next example_pool)(4096 := 0),
                              m_freelist := [0, 4096, 4096, 0]\<rparr>))"
    using l(4) by (simp add: example_pool_def KOKKOS_MEMPOOLLIST_LOCK_def)
  show ?thesis using a b c d by blast
qed

subsection \<open>Exhaustion\<close>




lemma subdivide_same_class: "subdivide s p l l = Some (Inr s)"
  by (simp add: subdivide_def)





subsection \<open>A request above the largest class\<close>

lemma find_chunk_size_too_large:
  assumes "m_chunk_size s = sizes @ [0]" "\<forall>c\<in>set sizes. 0 < c" "\<forall>c\<in>set sizes. c < a"
  shows "find_chunk_size (m_chunk_size s) a 0 = Inr (length sizes)"
proof -
  obtain e where e: "find_chunk_size (sizes @ [0]) a 0 = Inr e" "e \<le> length sizes"
      "e < length sizes \<longrightarrow> a \<le> sizes ! e"
    using find_chunk_size_scan[OF assms(2), of 0 a] by auto
  have "e = length sizes"
  proof (rule ccontr)
    assume "e \<noteq> length sizes"
    then have "e < length sizes" using e(2) by simp
    then show False using e(3) assms(3) nth_mem[of e sizes] by fastforce
  qed
  then show ?thesis using e(1) assms(1) by simp
qed

text \<open>
  Claim C5 as stated fails for the return-failure policy: without
  \<open>KOKKOS_MEMPOOLLIST_PRINTERR\<close> the check of lines 137 to 141 is compiled out, the loop is
  entered with \<open>l_exp\<close> at the sentinel, and the call returns the null address only after
  the attempt counter has run up to 100000.
\<close>

theorem allocate_too_large_counterexample:
  "m_chunk_size example_pool = [64, 256, 1024, 0] \<and> (1024 :: nat) < 2000 \<and>
   find_chunk_size (m_chunk_size example_pool) 2000 0 = Inr 3 \<and>
   allocate_loop False example_pool 3 0 = Some (Inr (0, 3, 100000, example_pool)) \<and>
   allocate False example_pool 2000 = Some (Inr (0, example_pool)) \<and>
   allocate False example_pool 2000 \<noteq> Some (Inl REQUESTED_SIZE_TOO_LARGE)"
proof -
  have e: "find_chunk_size (m_chunk_size example_pool) 2000 0 = Inr 3"
    by (simp add: example_pool_def find_chunk_size.simps)
  have f: "find_freelist (m_chunk_size example_pool) (m_freelist example_pool) 3 = Inr 3"
    by (simp add: example_pool_def find_freelist.simps)
  have z: "m_chunk_size example_pool ! 3 = 0" by (simp add: example_pool_def)
  have l: "allocate_loop False example_pool 3 0 = Some (Inr (0, 3, 100000, example_pool))"
    using allocate_loop_exhausted[OF f z, of 0 False] by simp
  show ?thesis using e l by (simp add: allocate_def) (simp add: example_pool_def)
qed

text \<open>
  Claim C5, amended. For a request above every class size, whatever the list heads
  and the link memory hold. Where \<open>KOKKOS_MEMPOOLLIST_PRINTERR\<close> is defined, \<open>allocate\<close>
  ends with \<open>REQUESTED_SIZE_TOO_LARGE\<close>, and it does so at once: the first step of the
  thread from the entry of \<open>allocate\<close> is the abort, a step that touches no list head
  and no link field, and the loop with its counter is never entered. Where it is not
  defined, the first step enters the loop at the sentinel with the counter at 0; from
  each counter value below 100000 the next step only adds one to the counter, and at
  100000 the step returns the null address. No step reads a list head, and the pool is
  unchanged throughout; the sequential \<open>allocate\<close> accordingly returns the null address
  and the pool, the loop leaving with \<open>num_tries = 100000\<close>.
\<close>

theorem allocate_too_large_immediate:
  assumes table: "m_chunk_size s = sizes @ [0]" and pos: "\<forall>c\<in>set sizes. 0 < c"
    and large: "\<forall>c\<in>set sizes. c < a"
  shows "allocate True (s\<lparr>m_freelist := fl, m_next := mem\<rparr>) a
           = Some (Inl REQUESTED_SIZE_TOO_LARGE) \<and>
         allocate False (s\<lparr>m_freelist := fl, m_next := mem\<rparr>) a
           = Some (Inr (0, s\<lparr>m_freelist := fl, m_next := mem\<rparr>)) \<and>
         allocate_loop False (s\<lparr>m_freelist := fl, m_next := mem\<rparr>) (length sizes) 0
           = Some (Inr (0, length sizes, 100000, s\<lparr>m_freelist := fl, m_next := mem\<rparr>)) \<and>
         exec True (s\<lparr>m_freelist := fl, m_next := mem\<rparr>) (A_start a)
           = (Local, s\<lparr>m_freelist := fl, m_next := mem\<rparr>, Aborted REQUESTED_SIZE_TOO_LARGE) \<and>
         exec False (s\<lparr>m_freelist := fl, m_next := mem\<rparr>) (A_start a)
           = (Local, s\<lparr>m_freelist := fl, m_next := mem\<rparr>,
              A_scan (length sizes) 0 (length sizes)) \<and>
         (\<forall>n<100000.
            exec False (s\<lparr>m_freelist := fl, m_next := mem\<rparr>) (A_scan (length sizes) n (length sizes))
              = (Local, s\<lparr>m_freelist := fl, m_next := mem\<rparr>,
                 A_scan (length sizes) (n + 1) (length sizes))) \<and>
         exec False (s\<lparr>m_freelist := fl, m_next := mem\<rparr>)
             (A_scan (length sizes) 100000 (length sizes))
           = (Local, s\<lparr>m_freelist := fl, m_next := mem\<rparr>, Returned (Some 0))"
proof -
  define s' where "s' = s\<lparr>m_freelist := fl, m_next := mem\<rparr>"
  have t: "m_chunk_size s' = sizes @ [0]" using table by (simp add: s'_def)
  have e: "find_chunk_size (m_chunk_size s') a 0 = Inr (length sizes)"
    using find_chunk_size_too_large[OF t pos large] .
  have z: "m_chunk_size s' ! length sizes = 0" using t by simp
  have len: "\<not> length (m_chunk_size s') \<le> length sizes" using t by simp
  have f: "find_freelist (m_chunk_size s') (m_freelist s') (length sizes) = Inr (length sizes)"
    using t by (subst find_freelist.simps) simp
  have l: "allocate_loop False s' (length sizes) 0 = Some (Inr (0, length sizes, 100000, s'))"
    using allocate_loop_exhausted[OF f z, of 0 False] by simp
  have a1: "allocate True s' a = Some (Inl REQUESTED_SIZE_TOO_LARGE)"
    using e z by (simp add: allocate_def)
  have a2: "allocate False s' a = Some (Inr (0, s'))"
    using e z l by (simp add: allocate_def)
  have x1: "exec True s' (A_start a) = (Local, s', Aborted REQUESTED_SIZE_TOO_LARGE)"
    using e z by simp
  have x2: "exec False s' (A_start a) = (Local, s', A_scan (length sizes) 0 (length sizes))"
    using e by simp
  have x3: "\<forall>n<100000. exec False s' (A_scan (length sizes) n (length sizes))
      = (Local, s', A_scan (length sizes) (n + 1) (length sizes))"
    using z len by simp
  have x4: "exec False s' (A_scan (length sizes) 100000 (length sizes))
      = (Local, s', Returned (Some 0))"
    using z len by simp
  show ?thesis
    unfolding s'_def[symmetric]
    by (intro conjI) (rule a1, rule a2, rule l, rule x1, rule x2, rule x3, rule x4)
qed

theorem allocate_too_large_immediate_witness:
  "allocate True (example_pool\<lparr>m_freelist := [KOKKOS_MEMPOOLLIST_LOCK, 7, 0, 0], m_next := (\<lambda>a. 1)\<rparr>) 1025
     = Some (Inl REQUESTED_SIZE_TOO_LARGE) \<and>
   exec True (example_pool\<lparr>m_freelist := [KOKKOS_MEMPOOLLIST_LOCK, 7, 0, 0], m_next := (\<lambda>a. 1)\<rparr>)
       (A_start 1025)
     = (Local, example_pool\<lparr>m_freelist := [KOKKOS_MEMPOOLLIST_LOCK, 7, 0, 0], m_next := (\<lambda>a. 1)\<rparr>,
        Aborted REQUESTED_SIZE_TOO_LARGE) \<and>
   exec False (example_pool\<lparr>m_freelist := [KOKKOS_MEMPOOLLIST_LOCK, 7, 0, 0], m_next := (\<lambda>a. 1)\<rparr>)
       (A_scan 3 99999 3)
     = (Local, example_pool\<lparr>m_freelist := [KOKKOS_MEMPOOLLIST_LOCK, 7, 0, 0], m_next := (\<lambda>a. 1)\<rparr>,
        A_scan 3 100000 3)"
proof -
  have t: "m_chunk_size example_pool = [64, 256, 1024] @ [0]" by (simp add: example_pool_def)
  have p: "\<forall>c\<in>set [64, 256, 1024 :: nat]. 0 < c" by simp
  have g: "\<forall>c\<in>set [64, 256, 1024 :: nat]. c < 1025" by simp
  note T = allocate_too_large_immediate[OF t p g,
      where fl = "[KOKKOS_MEMPOOLLIST_LOCK, 7, 0, 0]" and mem = "\<lambda>a. 1"]
  have n: "(99999 :: nat) < 100000" by simp
  note step = T[THEN conjunct2, THEN conjunct2, THEN conjunct2, THEN conjunct2, THEN conjunct2,
      THEN conjunct1, THEN spec, THEN mp, OF n]
  have l3: "length [64, 256, 1024 :: nat] = 3" by simp
  have n1: "(99999 :: nat) + 1 = 100000" by simp
  show ?thesis
    using T[THEN conjunct1] T[THEN conjunct2, THEN conjunct2, THEN conjunct2, THEN conjunct1]
      step
    by (simp only: l3 n1)
qed

subsection \<open>Allocating, releasing and allocating again\<close>

lemma allocate_success:
  assumes a: "allocate pe s a = Some (Inr (p, s1))" and p: "p \<noteq> 0"
  shows "\<exists>e l. find_chunk_size (m_chunk_size s) a 0 = Inr e \<and>
     find_freelist (m_chunk_size s) (m_freelist s) e = Inr l \<and>
     0 < m_chunk_size s ! l \<and> m_freelist s ! l = p \<and> p \<noteq> KOKKOS_MEMPOOLLIST_LOCK \<and>
     subdivide (s\<lparr>m_freelist := (m_freelist s)[l := m_next s p],
                   m_next := (m_next s)(p := 0)\<rparr>) p l e = Some (Inr s1)"
proof -
  from a obtain e where e: "find_chunk_size (m_chunk_size s) a 0 = Inr e"
    by (auto simp: allocate_def split: sum.splits)
  from a e obtain l n where loop: "allocate_loop pe s e 0 = Some (Inr (p, l, n, s1))"
    by (auto simp: allocate_def split: sum.splits if_splits option.splits)
  show ?thesis
  proof (cases "find_freelist (m_chunk_size s) (m_freelist s) e")
    case (Inl err)
    then show ?thesis using loop allocate_loop_overrun[OF Inl, of pe 0] by simp
  next
    case (Inr l')
    show ?thesis
    proof (cases "m_chunk_size s ! l' = 0")
      case True
      then show ?thesis
        using loop allocate_loop_exhausted[OF Inr True, of 0 pe] p by (simp split: if_splits)
    next
      case False
      then have pos: "0 < m_chunk_size s ! l'" by simp
      show ?thesis
      proof (cases "m_freelist s ! l' = KOKKOS_MEMPOOLLIST_LOCK")
        case True
        then show ?thesis using loop allocate_loop_locked[OF Inr pos True, of pe 0] by simp
      next
        case unlocked: False
        then show ?thesis
          using loop allocate_loop_remove[OF Inr pos unlocked, of pe 0] e Inr pos
          by (auto split: option.splits sum.splits)
      qed
    qed
  qed
qed

lemma subdivide_frame:
  assumes sub: "subdivide s3 p l e = Some (Inr s1)"
    and le: "e \<le> l" and ll: "l < length (m_freelist s3)"
    and lo: "\<forall>j. e \<le> j \<and> j < l \<longrightarrow> j < length (m_freelist s3) \<and> m_freelist s3 ! j = 0"
  shows "m_chunk_size s1 = m_chunk_size s3 \<and> m_data s1 = m_data s3 \<and>
     m_data_size s1 = m_data_size s3 \<and> length (m_freelist s1) = length (m_freelist s3) \<and>
     e < length (m_freelist s3)"
proof (cases "p \<noteq> 0 \<and> e < l")
  case True
  have z: "e < length (m_freelist s3)" "m_freelist s3 ! e = 0" using lo True by auto
  then have nl: "m_freelist s3 ! e \<noteq> KOKKOS_MEMPOOLLIST_LOCK"
    by (simp add: KOKKOS_MEMPOOLLIST_LOCK_def)
  show ?thesis
    using sub True z(1) nl by (simp add: subdivide_def Let_def insert_list_free) auto
next
  case False
  then have "s1 = s3" using sub by (auto simp: subdivide_def)
  moreover have "e < length (m_freelist s3)"
    using le ll lo by (cases "e = l") auto
  ultimately show ?thesis by simp
qed

lemma subdivide_head:
  assumes sub: "subdivide s3 p l e = Some (Inr s1)"
    and le: "e \<le> l" and ll: "l < length (m_freelist s3)"
    and lo: "\<forall>j. e \<le> j \<and> j < l \<longrightarrow> j < length (m_freelist s3) \<and> m_freelist s3 ! j = 0"
    and p: "p \<noteq> 0"
  shows "m_freelist s1 ! e = (if e < l then p + m_chunk_size s3 ! e else m_freelist s3 ! e)"
proof (cases "e < l")
  case True
  have z: "e < length (m_freelist s3)" "m_freelist s3 ! e = 0" using lo True by auto
  then have nl: "m_freelist s3 ! e \<noteq> KOKKOS_MEMPOOLLIST_LOCK"
    by (simp add: KOKKOS_MEMPOOLLIST_LOCK_def)
  show ?thesis
    using sub True z(1) nl p by (simp add: subdivide_def Let_def insert_list_free) auto
next
  case False
  then have "s1 = s3" using sub by (auto simp: subdivide_def)
  then show ?thesis using False by simp
qed

text \<open>
  When the release in between returns: the chunk lies in the arena (this is checked
  only where \<open>KOKKOS_MEMPOOLLIST_PRINTERR\<close> is defined), and the head that the first call
  left on the list of the class is not the \<open>Locked\<close> value.
\<close>

lemma deallocate_after_allocate:
  assumes first: "allocate pe s a = Some (Inr (p, s1))" and p: "p \<noteq> 0"
    and arena: "pe \<longrightarrow> m_data s \<le> p \<and>
      ptr_add p a \<le> ptr_add (m_data s) (m_data_size s)"
    and nolock: "m_next s p \<noteq> KOKKOS_MEMPOOLLIST_LOCK"
      "\<forall>c\<in>set (m_chunk_size s). p + c \<noteq> KOKKOS_MEMPOOLLIST_LOCK"
  shows "\<exists>s2. deallocate pe s1 p a = Some (Inr s2)"
proof -
  from allocate_success[OF first p] obtain e l where
    e: "find_chunk_size (m_chunk_size s) a 0 = Inr e" and
    f: "find_freelist (m_chunk_size s) (m_freelist s) e = Inr l" and
    pos: "0 < m_chunk_size s ! l" and hd: "m_freelist s ! l = p" and
    sub: "subdivide (s\<lparr>m_freelist := (m_freelist s)[l := m_next s p],
                   m_next := (m_next s)(p := 0)\<rparr>) p l e = Some (Inr s1)"
    by blast
  note F = find_freelist_Inr[OF f]
  have fr: "m_chunk_size s1 = m_chunk_size s" "length (m_freelist s1) = length (m_freelist s)"
    "e < length (m_freelist s)" "m_data s1 = m_data s" "m_data_size s1 = m_data_size s"
    using subdivide_frame[OF sub] F pos by auto
  have epos: "0 < m_chunk_size s ! e" using F pos by (cases "e = l") auto
  have ec: "m_chunk_size s ! e \<in> set (m_chunk_size s)" using F by simp
  have "m_freelist s1 ! e = (if e < l then p + m_chunk_size s ! e else m_next s p)"
    using subdivide_head[OF sub _ _ _ p] F pos by auto
  then have "m_freelist s1 ! e \<noteq> KOKKOS_MEMPOOLLIST_LOCK"
    using nolock ec by auto
  then have "insert_list s1 p p e =
      Some (Inr (s1\<lparr>m_next := (m_next s1)(p := m_freelist s1 ! e),
                     m_freelist := (m_freelist s1)[e := p]\<rparr>))"
    using fr by (intro insert_list_free) simp_all
  moreover have "\<not> (pe \<and> (p < m_data s1 \<or>
      ptr_add (m_data s1) (m_data_size s1) < ptr_add p a))"
    using arena fr by auto
  moreover have "\<not> (pe \<and> m_chunk_size s1 ! e = 0)" using epos fr by simp
  moreover have "find_chunk_size (m_chunk_size s1) a 0 = Inr e" using e fr by simp
  ultimately show ?thesis by (simp add: deallocate_unfold)
qed

text \<open>
  One thread alone: where the first \<open>allocate\<close> returns a chunk \<open>p\<close> (not the null
  address) and \<open>deallocate\<close> of \<open>p\<close> with the same size returns, \<open>allocate\<close> with the same
  size returns \<open>p\<close> again.
\<close>

lemma round_trip_when_released:
  assumes first: "allocate pe s a = Some (Inr (p, s1))" and p: "p \<noteq> 0"
    and release: "deallocate pe s1 p a = Some (Inr s2)"
  shows "\<exists>s3. allocate pe s2 a = Some (Inr (p, s3))"
proof -
  from allocate_success[OF first p] obtain e l where
    e: "find_chunk_size (m_chunk_size s) a 0 = Inr e" and
    f: "find_freelist (m_chunk_size s) (m_freelist s) e = Inr l" and
    pos: "0 < m_chunk_size s ! l" and hd: "m_freelist s ! l = p" and
    nl: "p \<noteq> KOKKOS_MEMPOOLLIST_LOCK" and
    sub: "subdivide (s\<lparr>m_freelist := (m_freelist s)[l := m_next s p],
                   m_next := (m_next s)(p := 0)\<rparr>) p l e = Some (Inr s1)"
    by blast
  note F = find_freelist_Inr[OF f]
  have fr: "m_chunk_size s1 = m_chunk_size s" "length (m_freelist s1) = length (m_freelist s)"
    "e < length (m_freelist s)"
    using subdivide_frame[OF sub] F pos by auto
  have epos: "0 < m_chunk_size s ! e" using F pos by (cases "e = l") auto
  have "find_chunk_size (m_chunk_size s1) a 0 = Inr e" using e fr(1) by simp
  then have ins: "insert_list s1 p p e = Some (Inr s2)"
    using release epos fr(1) by (simp add: deallocate_unfold split: if_splits)
  have e1: "e < length (m_freelist s1)" using fr by simp
  have "m_freelist s1 ! e \<noteq> KOKKOS_MEMPOOLLIST_LOCK"
    using ins insert_list_locked[OF e1, of p p] by auto
  then have s2: "s2 = s1\<lparr>m_next := (m_next s1)(p := m_freelist s1 ! e),
                        m_freelist := (m_freelist s1)[e := p]\<rparr>"
    using ins insert_list_free[OF e1, of p p] by simp
  have cs2: "m_chunk_size s2 = m_chunk_size s" and h2: "m_freelist s2 ! e = p"
    and e2: "e < length (m_freelist s2)"
    using s2 fr e1 by simp_all
  have f2: "find_freelist (m_chunk_size s2) (m_freelist s2) e = Inr e"
    using cs2 h2 e2 epos p F by (subst find_freelist.simps) simp
  have "allocate_loop pe s2 e 0 =
      Some (Inr (p, e, 0, s2\<lparr>m_freelist := (m_freelist s2)[e := m_next s2 p],
                               m_next := (m_next s2)(p := 0)\<rparr>))"
    using allocate_loop_remove[OF f2, of pe 0] cs2 h2 epos nl
    by (simp add: subdivide_same_class)
  then show ?thesis using e cs2 epos by (simp add: allocate_def)
qed


lemma round_trip_when_released_example:
  "\<exists>s1 s2 s3. allocate True example_pool 64 = Some (Inr (4096, s1)) \<and>
      deallocate True s1 4096 64 = Some (Inr s2) \<and>
      allocate True s2 64 = Some (Inr (4096, s3))"
proof -
  have e: "find_chunk_size (m_chunk_size example_pool) 64 0 = Inr 0"
    by (simp add: example_pool_def find_chunk_size.simps)
  have f: "find_freelist (m_chunk_size example_pool) (m_freelist example_pool) 0 = Inr 2"
    by (simp add: example_pool_def find_freelist.simps)
  have c: "0 < m_chunk_size example_pool ! 2"
    "m_freelist example_pool ! 2 \<noteq> KOKKOS_MEMPOOLLIST_LOCK"
    "2 \<le> m_chunk_size example_pool ! 2 div m_chunk_size example_pool ! 0"
    by (simp_all add: example_pool_def KOKKOS_MEMPOOLLIST_LOCK_def)
  have lt: "(0 :: nat) < 2" by simp
  from allocate_loop_split[OF f lt c, of True 0] obtain s1 where
    s1: "allocate_loop True example_pool 0 0 = Some (Inr (4096, 2, 0, s1))"
      "m_chunk_size s1 = [64, 256, 1024, 0]" "m_data s1 = 4096" "m_data_size s1 = 4096"
      "m_freelist s1 = [4160, 0, 5120, 0]"
    by (auto simp: example_pool_def)
  have a1: "allocate True example_pool 64 = Some (Inr (4096, s1))"
    using e s1(1) by (simp add: allocate_def) (simp add: example_pool_def)
  have e1: "find_chunk_size (m_chunk_size s1) 64 0 = Inr 0"
    by (simp add: s1(2) find_chunk_size.simps)
  have "insert_list s1 4096 4096 0 =
      Some (Inr (s1\<lparr>m_next := (m_next s1)(4096 := m_freelist s1 ! 0),
                     m_freelist := (m_freelist s1)[0 := 4096]\<rparr>))"
    by (rule insert_list_free) (simp_all add: s1(5) KOKKOS_MEMPOOLLIST_LOCK_def)
  then have d: "deallocate True s1 4096 64 =
      Some (Inr (s1\<lparr>m_next := (m_next s1)(4096 := m_freelist s1 ! 0),
                     m_freelist := (m_freelist s1)[0 := 4096]\<rparr>))"
    using s1(2,3,4) by (simp add: deallocate_unfold[OF e1] ptr_add_def)
  have nz: "(4096 :: nat) \<noteq> 0" by simp
  from round_trip_when_released[OF a1 nz d] show ?thesis using a1 d by blast
qed

text \<open>
  Claim C7, where the claim fails. In \<open>bug_pool\<close> three requests of 64 bytes return
  1000, 1064 and 1100; the third splits the chunk of 100 bytes at 1100 with \<open>n = 1\<close> and
  puts the address 1164 on list 0 (the same missing case for \<open>n = 1\<close> as in claim C2).
  The next \<open>allocate\<close> of 64 bytes succeeds and returns 1164. The claim says that
  \<open>deallocate\<close> of this address with the same size, followed by \<open>allocate\<close>, returns 1164
  again. The code aborts in \<open>deallocate\<close> at the range check of line 274: the 64 bytes
  from 1164 end at 1228, beyond the end of the arena at 1200, so the round trip never
  reaches its second \<open>allocate\<close>.
\<close>

theorem allocate_deallocate_round_trip_aborts:
  "m_data bug_pool + m_data_size bug_pool = 1200 \<and>
   (\<exists>s3 s4. allocate_n True bug_pool 64 3 = Some (Inr ([1000, 1064, 1100], s3)) \<and>
            allocate True s3 64 = Some (Inr (1164, s4)) \<and>
            deallocate True s4 1164 64 = Some (Inl ADDRESS_OUT_OF_RANGE))"
proof -
  define s1 where "s1 = bug_pool\<lparr>m_freelist := [1064, 1100, 0], m_next := (\<lambda>a. 0)\<rparr>"
  define s2 where "s2 = bug_pool\<lparr>m_freelist := [0, 1100, 0], m_next := (\<lambda>a. 0)\<rparr>"
  define s3 where "s3 = bug_pool\<lparr>m_freelist := [1164, 0, 0], m_next := (\<lambda>a. 0)\<rparr>"
  define s4 where "s4 = bug_pool\<lparr>m_freelist := [0, 0, 0], m_next := (\<lambda>a. 0)\<rparr>"
  have a1: "allocate True bug_pool 64 = Some (Inr (1000, s1))"
    unfolding s1_def
    apply (simp add: allocate_def bug_pool_def find_chunk_size.simps)
    apply (subst allocate_loop.simps)
    apply (simp add: find_freelist.simps KOKKOS_MEMPOOLLIST_LOCK_def atomic_compare_exchange_def
        Let_def subdivide_def size_t_dec_def link_chunks.simps)
    apply (subst insert_list.simps)
    apply (simp add: KOKKOS_MEMPOOLLIST_LOCK_def atomic_compare_exchange_def Let_def fun_eq_iff)
    done
  have a2: "allocate True s1 64 = Some (Inr (1064, s2))"
    unfolding s1_def s2_def
    apply (simp add: allocate_def bug_pool_def find_chunk_size.simps)
    apply (subst allocate_loop.simps)
    apply (simp add: find_freelist.simps KOKKOS_MEMPOOLLIST_LOCK_def atomic_compare_exchange_def
        Let_def subdivide_def fun_eq_iff)
    done
  have a3: "allocate True s2 64 = Some (Inr (1100, s3))"
    unfolding s2_def s3_def
    apply (simp add: allocate_def bug_pool_def find_chunk_size.simps)
    apply (subst allocate_loop.simps)
    apply (simp add: find_freelist.simps KOKKOS_MEMPOOLLIST_LOCK_def atomic_compare_exchange_def
        Let_def subdivide_def size_t_dec_def link_chunks.simps)
    apply (subst insert_list.simps)
    apply (simp add: KOKKOS_MEMPOOLLIST_LOCK_def atomic_compare_exchange_def Let_def fun_eq_iff)
    done
  have a4: "allocate True s3 64 = Some (Inr (1164, s4))"
    unfolding s3_def s4_def
    apply (simp add: allocate_def bug_pool_def find_chunk_size.simps)
    apply (subst allocate_loop.simps)
    apply (simp add: find_freelist.simps KOKKOS_MEMPOOLLIST_LOCK_def atomic_compare_exchange_def
        Let_def subdivide_def fun_eq_iff)
    done
  have "allocate_n True bug_pool 64 (Suc (Suc (Suc 0))) = Some (Inr ([1000, 1064, 1100], s3))"
    using a1 a2 a3 by simp
  then have n: "allocate_n True bug_pool 64 3 = Some (Inr ([1000, 1064, 1100], s3))"
    by (simp only: numeral_3_eq_3)
  have d: "deallocate True s4 1164 64 = Some (Inl ADDRESS_OUT_OF_RANGE)"
    by (simp add: deallocate_def s4_def bug_pool_def ptr_add_def)
  have m: "m_data bug_pool + m_data_size bug_pool = 1200" by (simp add: bug_pool_def)
  show ?thesis using m n a4 d by blast
qed

subsection \<open>The remainder of a split chunk\<close>

text \<open>
  Claim C10, where the claim fails. In \<open>bug_pool\<close> the chunk of 100 bytes at 1000 is
  split for a request of 64 bytes with \<open>n = 1\<close>, and \<open>100 mod 64 = 36\<close> bytes trail the
  returned sub-chunk: the bytes from 1064 up to 1100. The claim says that they are on
  no free list and are never handed out. The call has put the address 1064 on list 0
  (the same missing case for \<open>n = 1\<close> as in claim C2), and the next request of 64 bytes
  returns 1064: its 64 bytes from 1064 up to 1128 hold all 36 trailing bytes.
\<close>

theorem allocate_split_remainder_reused:
  "m_chunk_size bug_pool ! 1 div m_chunk_size bug_pool ! 0 = 1 \<and>
   m_chunk_size bug_pool ! 1 mod m_chunk_size bug_pool ! 0 = 36 \<and>
   (\<exists>s1 s2. allocate True bug_pool 64 = Some (Inr (1000, s1)) \<and>
            m_freelist s1 ! 0 = 1000 + m_chunk_size bug_pool ! 0 \<and>
            allocate True s1 64 = Some (Inr (1064, s2))) \<and>
   (\<exists>s2. allocate_n True bug_pool 64 2 = Some (Inr ([1000, 1064], s2)))"
proof -
  define s1 where "s1 = bug_pool\<lparr>m_freelist := [1064, 1100, 0], m_next := (\<lambda>a. 0)\<rparr>"
  define s2 where "s2 = bug_pool\<lparr>m_freelist := [0, 1100, 0], m_next := (\<lambda>a. 0)\<rparr>"
  have a1: "allocate True bug_pool 64 = Some (Inr (1000, s1))"
    unfolding s1_def
    apply (simp add: allocate_def bug_pool_def find_chunk_size.simps)
    apply (subst allocate_loop.simps)
    apply (simp add: find_freelist.simps KOKKOS_MEMPOOLLIST_LOCK_def atomic_compare_exchange_def
        Let_def subdivide_def size_t_dec_def link_chunks.simps)
    apply (subst insert_list.simps)
    apply (simp add: KOKKOS_MEMPOOLLIST_LOCK_def atomic_compare_exchange_def Let_def fun_eq_iff)
    done
  have a2: "allocate True s1 64 = Some (Inr (1064, s2))"
    unfolding s1_def s2_def
    apply (simp add: allocate_def bug_pool_def find_chunk_size.simps)
    apply (subst allocate_loop.simps)
    apply (simp add: find_freelist.simps KOKKOS_MEMPOOLLIST_LOCK_def atomic_compare_exchange_def
        Let_def subdivide_def fun_eq_iff)
    done
  have h: "m_freelist s1 ! 0 = 1000 + m_chunk_size bug_pool ! 0"
    by (simp add: s1_def bug_pool_def)
  have "allocate_n True bug_pool 64 (Suc (Suc 0)) = Some (Inr ([1000, 1064], s2))"
    using a1 a2 by simp
  then have n: "allocate_n True bug_pool 64 2 = Some (Inr ([1000, 1064], s2))"
    by (simp only: numeral_2_eq_2)
  have d: "m_chunk_size bug_pool ! 1 div m_chunk_size bug_pool ! 0 = 1"
    "m_chunk_size bug_pool ! 1 mod m_chunk_size bug_pool ! 0 = 36"
    by (simp_all add: bug_pool_def)
  show ?thesis using a1 a2 h n d by blast
qed

section \<open>The lock of a free list\<close>


lemma exec_length:
  "exec pe s c = (a, s', c') \<Longrightarrow> length (m_freelist s') = length (m_freelist s)"
  by (cases c)
    (auto simp: atomic_compare_exchange_def Let_def split: if_splits sum.splits)

lemma exec_pc_ok:
  assumes "exec pe s c = (a, s', c')" and "pc_ok (length (m_freelist s)) c"
    and "\<forall>l. holds c l \<longrightarrow> m_freelist s ! l = KOKKOS_MEMPOOLLIST_LOCK"
  shows "pc_ok (length (m_freelist s')) c'"
  using assms
  by (cases c)
    (auto simp: atomic_compare_exchange_def Let_def split: if_splits sum.splits
      dest: find_chunk_size_Inl)

lemma exec_head_change:
  assumes "exec pe s c = (a, s', c')" and "pc_ok (length (m_freelist s)) c"
    and "m_freelist s' ! k \<noteq> m_freelist s ! k"
  shows "m_freelist s ! k \<noteq> KOKKOS_MEMPOOLLIST_LOCK \<or> holds c k"
  using assms
  by (cases c)
    (auto simp: atomic_compare_exchange_def Let_def nth_list_update
      split: if_splits sum.splits)

lemma exec_holds:
  assumes "exec pe s c = (a, s', c')" and "pc_ok (length (m_freelist s)) c"
    and "holds c' l"
  shows "(holds c l \<and> m_freelist s' = m_freelist s) \<or>
         (m_freelist s ! l \<noteq> KOKKOS_MEMPOOLLIST_LOCK \<and>
          m_freelist s' ! l = KOKKOS_MEMPOOLLIST_LOCK)"
  using assms
  by (cases c)
    (auto simp: atomic_compare_exchange_def Let_def split: if_splits sum.splits)


lemma lock_inv_run:
  assumes inv: "lock_inv (s, ts)" and ex: "exec pe s (ts t) = (a, s', c')"
  shows "lock_inv (s', ts(t := c'))"
proof -
  let ?L = KOKKOS_MEMPOOLLIST_LOCK
  have ok: "pc_ok (length (m_freelist s)) (ts u)" for u
    using inv by (simp add: lock_inv_def)
  have locked: "m_freelist s ! l = ?L" if "holds (ts u) l" for u l
    using inv that by (simp add: lock_inv_def)
  have uniq: "u' = u" if "holds (ts u) l" "holds (ts u') l" for u u' l
    using inv that by (simp add: lock_inv_def)
  have len: "length (m_freelist s') = length (m_freelist s)"
    using exec_length[OF ex] .
  have new_ok: "pc_ok (length (m_freelist s')) c'"
    using exec_pc_ok[OF ex ok] locked by blast
  have new_holds: "m_freelist s' ! l = ?L \<and> (\<forall>u. u \<noteq> t \<longrightarrow> \<not> holds (ts u) l)"
    if h: "holds c' l" for l
  proof -
    from exec_holds[OF ex ok h]
    show ?thesis
    proof
      assume "holds (ts t) l \<and> m_freelist s' = m_freelist s"
      then show ?thesis using locked[of t l] uniq[of t l] by auto
    next
      assume "m_freelist s ! l \<noteq> ?L \<and> m_freelist s' ! l = ?L"
      then show ?thesis using locked[of _ l] by auto
    qed
  qed
  have old_holds: "m_freelist s' ! l = ?L \<and> \<not> holds c' l"
    if h: "holds (ts u) l" and ne: "u \<noteq> t" for u l
  proof -
    have "m_freelist s' ! l = m_freelist s ! l"
    proof (rule ccontr)
      assume "m_freelist s' ! l \<noteq> m_freelist s ! l"
      from exec_head_change[OF ex ok this] show False
        using locked[OF h] uniq[OF h, of t] ne by auto
    qed
    moreover have "\<not> holds c' l"
      using new_holds[of l] h ne by auto
    ultimately show ?thesis using locked[OF h] by simp
  qed
  have A: "pc_ok (length (m_freelist s')) ((ts(t := c')) u)" for u
    using new_ok ok[of u] len by (cases "u = t") simp_all
  have B: "m_freelist s' ! l = ?L" if "holds ((ts(t := c')) u) l" for u l
    using that new_holds[of l] old_holds[of u l] by (cases "u = t") simp_all
  have C: "u' = u" if "holds ((ts(t := c')) u) l" "holds ((ts(t := c')) u') l" for u u' l
  proof (cases "u = t")
    case True
    then have "holds c' l" using that(1) by simp
    then show ?thesis using new_holds[of l] that(2) True by (cases "u' = t") auto
  next
    case False
    then have h: "holds (ts u) l" using that(1) by simp
    show ?thesis
    proof (cases "u' = t")
      case True
      then show ?thesis using old_holds[OF h False] that(2) by simp
    next
      case ne: False
      then show ?thesis using uniq[OF h, of u'] that(2) by simp
    qed
  qed
  show ?thesis
    unfolding lock_inv_def using A B C by (simp only: prod.case) blast
qed

lemma lock_inv_step:
  assumes "lock_inv c" and "step pe c c'"
  shows "lock_inv c'"
  using assms(2,1)
proof cases
  case (run s ts t a s' c')
  then show ?thesis using lock_inv_run assms(1) by blast
next
  case (call_allocate ts t s alloc_size)
  then show ?thesis using assms(1) by (auto simp: lock_inv_def)
next
  case (call_deallocate ts t s alloc_ptr alloc_size)
  then show ?thesis using assms(1) by (auto simp: lock_inv_def)
next
  case (return ts t r s)
  then show ?thesis using assms(1) by (auto simp: lock_inv_def)
next
  case (scribble s ts a v)
  then show ?thesis using assms(1) by (auto simp: lock_inv_def)
qed

lemma reachable_lock_inv: "reachable pe s0 c \<Longrightarrow> lock_inv c"
proof (induction rule: reachable.induct)
  case init
  show ?case by (simp add: lock_inv_def)
next
  case (step c c')
  then show ?case using lock_inv_step by blast
qed


lemma reachable_event:
  assumes "reachable pe s0 c"
  shows "reachable pe s0 (apply_event pe ev c)"
proof (cases c)
  case (Pair s ts)
  show ?thesis
  proof (cases ev)
    case (Call_allocate t alloc_size)
    then show ?thesis
      using assms Pair reachable.step[OF _ step.call_allocate, of pe s0 s ts t alloc_size]
      by auto
  next
    case (Call_deallocate t alloc_ptr alloc_size)
    then show ?thesis
      using assms Pair
        reachable.step[OF _ step.call_deallocate, of pe s0 s ts t alloc_ptr alloc_size]
      by auto
  next
    case (Run t)
    obtain a s' c' where e: "exec pe s (ts t) = (a, s', c')" by (cases "exec pe s (ts t)")
    have "step pe (s, ts) (s', ts(t := c'))"
      using e by (rule step.run[where ts = ts and t = t])
    then show ?thesis
      using assms Pair Run e reachable.step[of pe s0 "(s, ts)" "(s', ts(t := c'))"] by simp
  next
    case (Return t)
    show ?thesis
    proof (cases "ts t")
      case (Returned r)
      then show ?thesis
        using assms Pair Return reachable.step[OF _ step.return, of pe s0 s ts t r] by simp
    qed (use assms Pair Return in simp_all)
  qed
qed

lemma reachable_events:
  "reachable pe s0 c \<Longrightarrow> reachable pe s0 (run_events pe evs c)"
  unfolding run_events_def
  by (induction evs arbitrary: c) (simp_all add: reachable_event)

lemma contended_state:
  "fst contended = example_pool\<lparr>m_freelist := [0, 0, KOKKOS_MEMPOOLLIST_LOCK, 0],
                               m_next := (m_next example_pool)(4096 := 0)\<rparr>"
  "snd contended 0 = A_unlock 2 2 5120 6144"
  "snd contended 1 = I_read_head 4096 4096 2 None"
  by (simp_all add: contended_def run_events_def example_pool_def find_chunk_size.simps
      atomic_compare_exchange_def KOKKOS_MEMPOOLLIST_LOCK_def Let_def ptr_add_def)




text \<open>
  Claim C8. In every reachable state, a compare-and-swap whose expected value is
  \<open>Locked\<close> is the one of line 173, by which \<open>allocate\<close> gives up the lock it holds; so
  the compare-and-swap of \<open>insert_list\<close> and the locking one of \<open>allocate\<close> never
  expect \<open>Locked\<close>. When \<open>insert_list\<close> reads \<open>Locked\<close> in the head, its step is that read
  alone: the pool is unchanged and the thread is at the read again. When \<open>allocate\<close>
  reads \<open>Locked\<close> at line 155, it goes back to the scan with \<open>num_tries\<close> as it was.
\<close>

theorem cas_never_expects_locked:
  assumes "reachable pe s0 (s, ts)"
  shows "(\<forall>t list expected new found s' c'.
            exec pe s (ts t) = (Cas_head list expected new found, s', c') \<and>
            expected = KOKKOS_MEMPOOLLIST_LOCK \<longrightarrow>
            (\<exists>l_exp old_head. ts t = A_unlock l_exp list old_head new)) \<and>
         (\<forall>lp_head lp_tail list ret.
            list < length (m_freelist s) \<and> m_freelist s ! list = KOKKOS_MEMPOOLLIST_LOCK \<longrightarrow>
            exec pe s (I_read_head lp_head lp_tail list ret) =
              (Read_head list KOKKOS_MEMPOOLLIST_LOCK, s, I_read_head lp_head lp_tail list ret)) \<and>
         (\<forall>l_exp num_tries l.
            m_freelist s ! l = KOKKOS_MEMPOOLLIST_LOCK \<longrightarrow>
            exec pe s (A_read_head l_exp num_tries l) =
              (Read_head l KOKKOS_MEMPOOLLIST_LOCK, s, A_scan l_exp num_tries l_exp))"
proof -
  have inv: "lock_inv (s, ts)" using reachable_lock_inv[OF assms] .
  have "\<exists>l_exp old_head. ts t = A_unlock l_exp list old_head new"
    if e: "exec pe s (ts t) = (Cas_head list expected new found, s', c')"
      and x: "expected = KOKKOS_MEMPOOLLIST_LOCK" for t list expected new found s' c'
  proof -
    have ok: "pc_ok (length (m_freelist s)) (ts t)" using inv by (simp add: lock_inv_def)
    show ?thesis
      using e x ok
      by (cases "ts t")
        (auto simp: atomic_compare_exchange_def Let_def split: if_splits sum.splits)
  qed
  then show ?thesis by (auto simp: Let_def)
qed

theorem cas_never_expects_locked_witness:
  "reachable True example_pool contended \<and>
   exec True (fst contended) (snd contended 0) =
     (Cas_head 2 KOKKOS_MEMPOOLLIST_LOCK 6144 KOKKOS_MEMPOOLLIST_LOCK,
      (fst contended)\<lparr>m_freelist := [0, 0, 6144, 0]\<rparr>, A_clear 2 2 5120) \<and>
   snd contended 0 = A_unlock 2 2 5120 6144 \<and>
   snd contended 1 = I_read_head 4096 4096 2 None \<and>
   m_freelist (fst contended) ! 2 = KOKKOS_MEMPOOLLIST_LOCK \<and>
   exec True (fst contended) (snd contended 1) =
     (Read_head 2 KOKKOS_MEMPOOLLIST_LOCK, fst contended, snd contended 1)"
proof -
  have r: "reachable True example_pool contended"
    unfolding contended_def by (rule reachable_events) (rule reachable.init)
  then have r': "reachable True example_pool (fst contended, snd contended)" by simp
  have e: "exec True (fst contended) (snd contended 0) =
     (Cas_head 2 KOKKOS_MEMPOOLLIST_LOCK 6144 KOKKOS_MEMPOOLLIST_LOCK,
      (fst contended)\<lparr>m_freelist := [0, 0, 6144, 0]\<rparr>, A_clear 2 2 5120)"
    by (simp add: contended_state atomic_compare_exchange_def)
  have l: "2 < length (m_freelist (fst contended)) \<and>
      m_freelist (fst contended) ! 2 = KOKKOS_MEMPOOLLIST_LOCK"
    by (simp add: contended_state)
  note T = cas_never_expects_locked[OF r']
  from T[THEN conjunct1, rule_format, of 0] e
  have a: "\<exists>l_exp old_head. snd contended 0 = A_unlock l_exp 2 old_head 6144" by blast
  from T[THEN conjunct2, THEN conjunct1, THEN spec, THEN spec, THEN spec, THEN spec, THEN mp, OF l]
  have b: "exec True (fst contended) (I_read_head 4096 4096 2 None) =
      (Read_head 2 KOKKOS_MEMPOOLLIST_LOCK, fst contended, I_read_head 4096 4096 2 None)" .
  show ?thesis using r e a b l contended_state(2,3) by simp
qed

section \<open>One thread alone does what the sequential functions say\<close>

lemma solo_add:
  "solo pe (m + n) s c = (case solo pe m s c of (s', c') \<Rightarrow> solo pe n s' c')"
  by (induction m arbitrary: s c) (auto split: prod.splits)

lemma runs_to_refl: "runs_to pe s c s c"
  unfolding runs_to_def by (rule exI[of _ 0]) simp

lemma runs_to_trans:
  assumes "runs_to pe s c s1 c1" and "runs_to pe s1 c1 s2 c2"
  shows "runs_to pe s c s2 c2"
proof -
  from assms obtain m n where "solo pe m s c = (s1, c1)" "solo pe n s1 c1 = (s2, c2)"
    unfolding runs_to_def by blast
  then have "solo pe (m + n) s c = (s2, c2)" by (simp add: solo_add)
  then show ?thesis unfolding runs_to_def by blast
qed

lemma runs_to_step:
  assumes "exec pe s c = (a, sa, ca)" and "runs_to pe sa ca sb cb"
  shows "runs_to pe s c sb cb"
proof -
  from assms(2) obtain n where "solo pe n sa ca = (sb, cb)" unfolding runs_to_def by blast
  then have "solo pe (Suc n) s c = (sb, cb)" using assms(1) by simp
  then show ?thesis unfolding runs_to_def by blast
qed

lemma runs_to_step1: "exec pe s c = (a, sa, ca) \<Longrightarrow> runs_to pe s c sa ca"
  by (erule runs_to_step) (rule runs_to_refl)

lemma solo_insert_list:
  assumes "insert_list s lp_head lp_tail list = Some r"
  shows "case r of
           Inl e \<Rightarrow> runs_to pe s (I_read_head lp_head lp_tail list ret) s (Aborted e)
         | Inr s' \<Rightarrow> runs_to pe s (I_read_head lp_head lp_tail list ret) s' (Returned ret)"
proof (cases "length (m_freelist s) \<le> list")
  case True
  then have "r = Inl OUT_OF_BOUNDS" using assms by (simp add: insert_list_oob)
  then show ?thesis using True by (auto intro!: runs_to_step1)
next
  case False
  then have lt: "list < length (m_freelist s)" by simp
  have nl: "m_freelist s ! list \<noteq> KOKKOS_MEMPOOLLIST_LOCK"
    using assms insert_list_locked[OF lt, of lp_head lp_tail] by auto
  have r: "r = Inr (s\<lparr>m_next := (m_next s)(lp_tail := m_freelist s ! list),
                 m_freelist := (m_freelist s)[list := lp_head]\<rparr>)"
    using assms insert_list_free[OF lt nl, of lp_head lp_tail] by simp
  let ?oh = "m_freelist s ! list"
  let ?s1 = "s\<lparr>m_next := (m_next s)(lp_tail := ?oh)\<rparr>"
  let ?s2 = "s\<lparr>m_next := (m_next s)(lp_tail := ?oh), m_freelist := (m_freelist s)[list := lp_head]\<rparr>"
  have 1: "exec pe s (I_read_head lp_head lp_tail list ret) =
      (Read_head list ?oh, s, I_write_next lp_head lp_tail list ?oh ret)"
    using lt nl by (simp add: Let_def)
  have 2: "exec pe s (I_write_next lp_head lp_tail list ?oh ret) =
      (Write_next lp_tail ?oh, ?s1, I_cas lp_head lp_tail list ?oh ret)"
    by simp
  have 3: "exec pe ?s1 (I_cas lp_head lp_tail list ?oh ret) =
      (Cas_head list ?oh lp_head ?oh, ?s2, Returned ret)"
    by (simp add: atomic_compare_exchange_def)
  have "runs_to pe s (I_read_head lp_head lp_tail list ret) ?s2 (Returned ret)"
    by (rule runs_to_step[OF 1], rule runs_to_step[OF 2], rule runs_to_step1[OF 3])
  then show ?thesis using r by simp
qed


lemma solo_deallocate_returns:
  assumes "deallocate pe s alloc_ptr alloc_size = Some r"
  shows "case r of
           Inl e \<Rightarrow> runs_to pe s (D_start alloc_ptr alloc_size) s (Aborted e)
         | Inr s' \<Rightarrow> runs_to pe s (D_start alloc_ptr alloc_size) s' (Returned None)"
proof (cases "pe \<and> (alloc_ptr < m_data s \<or>
    ptr_add alloc_ptr alloc_size > ptr_add (m_data s) (m_data_size s))")
  case True
  then have "r = Inl ADDRESS_OUT_OF_RANGE" using assms by (auto simp: deallocate_def)
  then show ?thesis using True by (auto intro!: runs_to_step1)
next
  case range: False
  show ?thesis
  proof (cases "find_chunk_size (m_chunk_size s) alloc_size 0")
    case (Inl e)
    then have "r = Inl e" using assms range by (auto simp: deallocate_def)
    then show ?thesis using range Inl by (auto intro!: runs_to_step1)
  next
    case (Inr l)
    show ?thesis
    proof (cases "pe \<and> m_chunk_size s ! l = 0")
      case True
      then have "r = Inl CHUNK_TOO_LARGE" using assms range Inr by (auto simp: deallocate_def)
      then show ?thesis using range Inr True by (auto intro!: runs_to_step1)
    next
      case False
      then have i: "insert_list s alloc_ptr alloc_ptr l = Some r"
        using assms range Inr by (auto simp: deallocate_def)
      have e: "exec pe s (D_start alloc_ptr alloc_size) =
          (Local, s, I_read_head alloc_ptr alloc_ptr l None)"
        using range Inr False by auto
      show ?thesis
        using solo_insert_list[OF i, of pe None] runs_to_step[OF e]
        by (cases r) auto
    qed
  qed
qed

lemma solo_scan:
  "find_freelist (m_chunk_size s) (m_freelist s) l0 = Inr l \<Longrightarrow>
     runs_to pe s (A_scan l_exp num_tries l0) s (A_scan l_exp num_tries l)"
proof (induction "m_chunk_size s" "m_freelist s" l0 rule: find_freelist.induct)
  case (1 l0)
  show ?case
  proof (cases "\<not> length (m_chunk_size s) \<le> l0 \<and> 0 < m_chunk_size s ! l0 \<and>
                \<not> length (m_freelist s) \<le> l0 \<and> m_freelist s ! l0 = 0")
    case True
    then have "find_freelist (m_chunk_size s) (m_freelist s) (Suc l0) = Inr l"
      using "1.prems" by (subst (asm) find_freelist.simps) simp
    then have "runs_to pe s (A_scan l_exp num_tries (Suc l0)) s (A_scan l_exp num_tries l)"
      using "1.hyps" True by simp
    moreover have "exec pe s (A_scan l_exp num_tries l0) =
        (Read_head l0 (m_freelist s ! l0), s, A_scan l_exp num_tries (Suc l0))"
      using True by simp
    ultimately show ?thesis by (rule runs_to_step[rotated])
  next
    case False
    then have "l = l0"
      using "1.prems" by (subst (asm) find_freelist.simps) (auto split: if_splits)
    then show ?thesis by (simp add: runs_to_refl)
  qed
qed

lemma solo_scan_overrun:
  "find_freelist (m_chunk_size s) (m_freelist s) l0 = Inl e \<Longrightarrow>
     runs_to pe s (A_scan l_exp num_tries l0) s (Aborted e)"
proof (induction "m_chunk_size s" "m_freelist s" l0 rule: find_freelist.induct)
  case (1 l0)
  show ?case
  proof (cases "\<not> length (m_chunk_size s) \<le> l0 \<and> 0 < m_chunk_size s ! l0 \<and>
                \<not> length (m_freelist s) \<le> l0 \<and> m_freelist s ! l0 = 0")
    case True
    then have "find_freelist (m_chunk_size s) (m_freelist s) (Suc l0) = Inl e"
      using "1.prems" by (subst (asm) find_freelist.simps) simp
    then have "runs_to pe s (A_scan l_exp num_tries (Suc l0)) s (Aborted e)"
      using "1.hyps" True by simp
    moreover have "exec pe s (A_scan l_exp num_tries l0) =
        (Read_head l0 (m_freelist s ! l0), s, A_scan l_exp num_tries (Suc l0))"
      using True by simp
    ultimately show ?thesis by (rule runs_to_step[rotated])
  next
    case False
    then have "e = OUT_OF_BOUNDS \<and> exec pe s (A_scan l_exp num_tries l0) = (Local, s, Aborted e)"
      using "1.prems" by (subst (asm) find_freelist.simps) (auto split: if_splits)
    then show ?thesis by (auto intro: runs_to_step1)
  qed
qed

lemma solo_exhausted:
  assumes f: "find_freelist (m_chunk_size s) (m_freelist s) l_exp = Inr l"
    and z: "m_chunk_size s ! l = 0"
  shows "n \<le> 100000 \<Longrightarrow>
     runs_to pe s (A_scan l_exp n l_exp) s
       (if pe then Aborted NO_CHUNKS_BIG_ENOUGH else Returned (Some 0))"
proof (induction "100000 - n" arbitrary: n)
  case 0
  then have n: "n = 100000" by simp
  have "l < length (m_chunk_size s)" using find_freelist_Inr[OF f] by simp
  then have "exec pe s (A_scan l_exp n l) =
      (Local, s, if pe then Aborted NO_CHUNKS_BIG_ENOUGH else Returned (Some 0))"
    using z n by simp
  then show ?case using solo_scan[OF f, of pe l_exp n] runs_to_trans runs_to_step1 by blast
next
  case (Suc k)
  then have n: "n \<noteq> 100000" "n + 1 \<le> 100000" "k = 100000 - (n + 1)" by auto
  have "l < length (m_chunk_size s)" using find_freelist_Inr[OF f] by simp
  then have "exec pe s (A_scan l_exp n l) = (Local, s, A_scan l_exp (n + 1) l_exp)"
    using z n by simp
  then have "runs_to pe s (A_scan l_exp n l_exp) s (A_scan l_exp (n + 1) l_exp)"
    using solo_scan[OF f, of pe l_exp n] runs_to_trans runs_to_step1 by blast
  then show ?case using Suc.hyps(1)[OF n(3) n(2)] runs_to_trans by blast
qed

lemma solo_link:
  assumes sz: "sz = m_chunk_size s ! l_exp" and n: "n = m_chunk_size s ! l div sz"
  shows "2 \<le> i \<Longrightarrow> i < n \<Longrightarrow>
     runs_to pe s (A_link l_exp l p i)
       (s\<lparr>m_next := link_chunks (m_next s) p sz n i\<rparr>)
       (I_read_head (p + sz) (p + size_t_dec n * sz) l_exp (Some p))"
  using sz n
proof (induction "n - i" arbitrary: i s)
  case 0
  then show ?case by simp
next
  case (Suc d)
  let ?s1 = "s\<lparr>m_next := (m_next s)(p + (i - 1) * sz := p + i * sz)\<rparr>"
  have lc: "link_chunks (m_next s) p sz n i = link_chunks (m_next ?s1) p sz n (Suc i)"
    using Suc.prems by (subst link_chunks.simps) simp
  show ?case
  proof (cases "Suc i < n")
    case True
    have e: "exec pe s (A_link l_exp l p i) =
        (Write_next (p + (i - 1) * sz) (p + i * sz), ?s1, A_link l_exp l p (Suc i))"
      using True Suc.prems by (simp add: Let_def)
    have "runs_to pe ?s1 (A_link l_exp l p (Suc i))
        (?s1\<lparr>m_next := link_chunks (m_next ?s1) p sz n (Suc i)\<rparr>)
        (I_read_head (p + sz) (p + size_t_dec n * sz) l_exp (Some p))"
      using Suc.hyps(1)[of "Suc i" ?s1] Suc.hyps(2) Suc.prems True by simp
    then show ?thesis using runs_to_step[OF e] lc by simp
  next
    case False
    have e: "exec pe s (A_link l_exp l p i) =
        (Write_next (p + (i - 1) * sz) (p + i * sz), ?s1,
         I_read_head (p + sz) (p + size_t_dec n * sz) l_exp (Some p))"
      using False Suc.prems by (simp add: Let_def)
    have "link_chunks (m_next ?s1) p sz n (Suc i) = m_next ?s1"
      using False by (subst link_chunks.simps) simp
    then show ?thesis using runs_to_step1[OF e] lc by simp
  qed
qed


lemma solo_subdivide:
  assumes sub: "subdivide (s2\<lparr>m_next := (m_next s2)(p := 0)\<rparr>) p l l_exp = Some r"
  shows "case r of
           Inl e \<Rightarrow> \<exists>s'. runs_to pe s2 (A_clear l_exp l p) s' (Aborted e)
         | Inr s4 \<Rightarrow> runs_to pe s2 (A_clear l_exp l p) s4 (Returned (Some p))"
proof -
  let ?s3 = "s2\<lparr>m_next := (m_next s2)(p := 0)\<rparr>"
  let ?sz = "m_chunk_size s2 ! l_exp"
  let ?n = "m_chunk_size s2 ! l div ?sz"
  let ?ins = "I_read_head (p + ?sz) (p + size_t_dec ?n * ?sz) l_exp (Some p)"
  show ?thesis
  proof (cases "p \<noteq> 0 \<and> l > l_exp")
    case False
    then have "r = Inr ?s3" using sub by (auto simp: subdivide_def)
    moreover have "exec pe s2 (A_clear l_exp l p) = (Write_next p 0, ?s3, Returned (Some p))"
      using False by auto
    ultimately show ?thesis by (auto intro: runs_to_step1)
  next
    case True
    let ?s1 = "?s3\<lparr>m_next := link_chunks (m_next ?s3) p ?sz ?n 2\<rparr>"
    have i: "insert_list ?s1 (p + ?sz) (p + size_t_dec ?n * ?sz) l_exp = Some r"
      using sub True by (simp add: subdivide_def Let_def)
    have to_ins: "runs_to pe s2 (A_clear l_exp l p) ?s1 ?ins"
    proof (cases "2 < ?n")
      case big: True
      have e: "exec pe s2 (A_clear l_exp l p) = (Write_next p 0, ?s3, A_link l_exp l p 2)"
        using True big by (simp add: Let_def)
      have "runs_to pe ?s3 (A_link l_exp l p 2) ?s1 ?ins"
        using solo_link[of ?sz ?s3 l_exp ?n l 2 pe p] big by simp
      then show ?thesis using runs_to_step[OF e] by simp
    next
      case small: False
      have e: "exec pe s2 (A_clear l_exp l p) = (Write_next p 0, ?s3, ?ins)"
        using True small by (simp add: Let_def)
      have "link_chunks (m_next ?s3) p ?sz ?n 2 = m_next ?s3"
        using small by (subst link_chunks.simps) simp
      then have "?s1 = ?s3" by simp
      then show ?thesis using runs_to_step1[OF e] by simp
    qed
    show ?thesis
    proof (cases r)
      case (Inl e)
      then have "runs_to pe ?s1 ?ins ?s1 (Aborted e)"
        using solo_insert_list[OF i, of pe "Some p"] by simp
      from runs_to_trans[OF to_ins this] show ?thesis using Inl by auto
    next
      case (Inr s4)
      then have "runs_to pe ?s1 ?ins s4 (Returned (Some p))"
        using solo_insert_list[OF i, of pe "Some p"] by simp
      from runs_to_trans[OF to_ins this] show ?thesis using Inr by simp
    qed
  qed
qed

lemma solo_remove:
  assumes f: "find_freelist (m_chunk_size s) (m_freelist s) l_exp = Inr l"
    and pos: "0 < m_chunk_size s ! l"
    and unlocked: "m_freelist s ! l \<noteq> KOKKOS_MEMPOOLLIST_LOCK"
    and sub: "subdivide (s\<lparr>m_freelist := (m_freelist s)[l := m_next s (m_freelist s ! l)],
                        m_next := (m_next s)(m_freelist s ! l := 0)\<rparr>) (m_freelist s ! l) l l_exp
              = Some r"
  shows "case r of
           Inl e \<Rightarrow> \<exists>s'. runs_to pe s (A_scan l_exp num_tries l_exp) s' (Aborted e)
         | Inr s4 \<Rightarrow> runs_to pe s (A_scan l_exp num_tries l_exp) s4
                      (Returned (Some (m_freelist s ! l)))"
proof -
  let ?L = KOKKOS_MEMPOOLLIST_LOCK
  let ?p = "m_freelist s ! l"
  let ?sl = "s\<lparr>m_freelist := (m_freelist s)[l := ?L]\<rparr>"
  let ?s2 = "s\<lparr>m_freelist := (m_freelist s)[l := m_next s ?p]\<rparr>"
  note F = find_freelist_Inr[OF f]
  have ll: "l < length (m_freelist s)" "l < length (m_chunk_size s)" "?p \<noteq> 0"
    using F pos by auto
  have 1: "exec pe s (A_scan l_exp num_tries l) = (Read_head l ?p, s, A_read_head l_exp num_tries l)"
    using ll pos by simp
  have 2: "exec pe s (A_read_head l_exp num_tries l) = (Read_head l ?p, s, A_lock l_exp num_tries l ?p)"
    using ll unlocked by (simp add: Let_def)
  have 3: "exec pe s (A_lock l_exp num_tries l ?p) = (Cas_head l ?p ?L ?p, ?sl, A_read_next l_exp l ?p)"
    by (simp add: atomic_compare_exchange_def)
  have 4: "exec pe ?sl (A_read_next l_exp l ?p) =
      (Read_next ?p (m_next s ?p), ?sl, A_unlock l_exp l ?p (m_next s ?p))"
    by simp
  have 5: "exec pe ?sl (A_unlock l_exp l ?p (m_next s ?p)) =
      (Cas_head l ?L (m_next s ?p) ?L, ?s2, A_clear l_exp l ?p)"
    using ll by (simp add: atomic_compare_exchange_def)
  have to_clear: "runs_to pe s (A_scan l_exp num_tries l_exp) ?s2 (A_clear l_exp l ?p)"
    by (rule runs_to_trans[OF solo_scan[OF f]], rule runs_to_step[OF 1],
        rule runs_to_step[OF 2], rule runs_to_step[OF 3], rule runs_to_step[OF 4],
        rule runs_to_step1[OF 5])
  have sub2: "subdivide (?s2\<lparr>m_next := (m_next ?s2)(?p := 0)\<rparr>) ?p l l_exp = Some r"
    using sub by simp
  show ?thesis
  proof (cases r)
    case (Inl e)
    then obtain s' where "runs_to pe ?s2 (A_clear l_exp l ?p) s' (Aborted e)"
      using solo_subdivide[OF sub2, of pe] by auto
    from runs_to_trans[OF to_clear this] show ?thesis using Inl by auto
  next
    case (Inr s4)
    then have "runs_to pe ?s2 (A_clear l_exp l ?p) s4 (Returned (Some ?p))"
      using solo_subdivide[OF sub2, of pe] by simp
    from runs_to_trans[OF to_clear this] show ?thesis using Inr by simp
  qed
qed

text \<open>
  The two descriptions agree: whenever the sequential \<open>allocate\<close> or \<open>deallocate\<close>
  returns or aborts, a thread that runs alone from the entry of the function reaches
  the same return value and pool, or the same abort.
\<close>

lemma solo_allocate_returns:
  assumes a: "allocate pe s alloc_size = Some r"
  shows "case r of
           Inl e \<Rightarrow> \<exists>s'. runs_to pe s (A_start alloc_size) s' (Aborted e)
         | Inr (p, s') \<Rightarrow> runs_to pe s (A_start alloc_size) s' (Returned (Some p))"
proof (cases "find_chunk_size (m_chunk_size s) alloc_size 0")
  case (Inl e)
  then have r: "r = Inl e" using a by (simp add: allocate_def)
  have "exec pe s (A_start alloc_size) = (Local, s, Aborted e)" using Inl by simp
  from runs_to_step1[OF this] show ?thesis using r by auto
next
  case (Inr e)
  show ?thesis
  proof (cases "pe \<and> m_chunk_size s ! e = 0")
    case True
    then have r: "r = Inl REQUESTED_SIZE_TOO_LARGE" using a Inr by (auto simp: allocate_def)
    have "exec pe s (A_start alloc_size) = (Local, s, Aborted REQUESTED_SIZE_TOO_LARGE)"
      using Inr True by simp
    from runs_to_step1[OF this] show ?thesis using r by auto
  next
    case False
    have st: "exec pe s (A_start alloc_size) = (Local, s, A_scan e 0 e)"
      using Inr False by auto
    have loop: "(case allocate_loop pe s e 0 of None \<Rightarrow> None
                 | Some (Inl x) \<Rightarrow> Some (Inl x)
                 | Some (Inr (p, l, n, s')) \<Rightarrow> Some (Inr (p, s'))) = Some r"
      using a Inr False by (auto simp: allocate_def)
    show ?thesis
    proof (cases "find_freelist (m_chunk_size s) (m_freelist s) e")
      case over: (Inl err)
      then have "r = Inl err" using loop allocate_loop_overrun[OF over, of pe 0] by simp
      then show ?thesis
        using solo_scan_overrun[OF over, of pe e 0] runs_to_step[OF st] by auto
    next
      case found: (Inr l)
      show ?thesis
      proof (cases "m_chunk_size s ! l = 0")
        case True
        have r: "r = (if pe then Inl NO_CHUNKS_BIG_ENOUGH else Inr (0, s))"
          using loop allocate_loop_exhausted[OF found True, of 0 pe] by (simp split: if_splits)
        have "runs_to pe s (A_start alloc_size) s
            (if pe then Aborted NO_CHUNKS_BIG_ENOUGH else Returned (Some 0))"
          using solo_exhausted[OF found True, of 0 pe] runs_to_step[OF st] by simp
        then show ?thesis using r by (auto split: if_splits)
      next
        case nz: False
        then have pos: "0 < m_chunk_size s ! l" by simp
        have unlocked: "m_freelist s ! l \<noteq> KOKKOS_MEMPOOLLIST_LOCK"
          using loop allocate_loop_locked[OF found pos, of pe 0] by auto
        let ?sub = "subdivide (s\<lparr>m_freelist := (m_freelist s)[l := m_next s (m_freelist s ! l)],
                        m_next := (m_next s)(m_freelist s ! l := 0)\<rparr>) (m_freelist s ! l) l e"
        from loop allocate_loop_remove[OF found pos unlocked, of pe 0]
        obtain r' where r': "?sub = Some r'"
          "r = (case r' of Inl x \<Rightarrow> Inl x | Inr s4 \<Rightarrow> Inr (m_freelist s ! l, s4))"
          by (cases ?sub) (auto split: sum.splits)
        show ?thesis
        proof (cases r')
          case (Inl x)
          then obtain s' where "runs_to pe s (A_scan e 0 e) s' (Aborted x)"
            using solo_remove[OF found pos unlocked r'(1), of pe 0] by auto
          from runs_to_step[OF st this] show ?thesis using Inl r'(2) by auto
        next
          case (Inr s4)
          then have "runs_to pe s (A_scan e 0 e) s4 (Returned (Some (m_freelist s ! l)))"
            using solo_remove[OF found pos unlocked r'(1), of pe 0] by simp
          from runs_to_step[OF st this] show ?thesis using Inr r'(2) by simp
        qed
      qed
    qed
  qed
qed


text \<open>
  And where the sequential functions do not return, the thread that runs alone never
  leaves the function and never changes the pool.
\<close>

lemma solo_insert_list_spins:
  assumes "insert_list s lp_head lp_tail list = None"
  shows "solo pe n s (I_read_head lp_head lp_tail list ret) =
           (s, I_read_head lp_head lp_tail list ret)"
proof -
  have lt: "list < length (m_freelist s)"
    using assms insert_list_oob[of s list lp_head lp_tail] by (cases "list < length (m_freelist s)") auto
  have "m_freelist s ! list = KOKKOS_MEMPOOLLIST_LOCK"
    using assms insert_list_free[OF lt, of lp_head lp_tail] by auto
  then have "exec pe s (I_read_head lp_head lp_tail list ret) =
      (Read_head list KOKKOS_MEMPOOLLIST_LOCK, s, I_read_head lp_head lp_tail list ret)"
    using lt by simp
  then show ?thesis by (induction n) simp_all
qed

lemma solo_deallocate_spins:
  assumes "deallocate pe s alloc_ptr alloc_size = None"
  shows "\<exists>c. solo pe n s (D_start alloc_ptr alloc_size) = (s, c) \<and> \<not> finished c"
proof (cases n)
  case 0
  then show ?thesis by simp
next
  case (Suc m)
  from assms obtain l where l: "find_chunk_size (m_chunk_size s) alloc_size 0 = Inr l"
    "\<not> (pe \<and> (alloc_ptr < m_data s \<or>
        ptr_add alloc_ptr alloc_size > ptr_add (m_data s) (m_data_size s)))"
    "\<not> (pe \<and> m_chunk_size s ! l = 0)" "insert_list s alloc_ptr alloc_ptr l = None"
    by (auto simp: deallocate_def split: if_splits sum.splits)
  have "exec pe s (D_start alloc_ptr alloc_size) = (Local, s, I_read_head alloc_ptr alloc_ptr l None)"
    using l by auto
  then have "solo pe n s (D_start alloc_ptr alloc_size) = (s, I_read_head alloc_ptr alloc_ptr l None)"
    using Suc solo_insert_list_spins[OF l(4), of pe m None] by simp
  then show ?thesis by simp
qed

lemma solo_allocate_spins:
  assumes a: "allocate pe s alloc_size = None"
  shows "\<exists>c. solo pe n s (A_start alloc_size) = (s, c) \<and> \<not> finished c"
proof -
  let ?L = KOKKOS_MEMPOOLLIST_LOCK
  from a obtain e where e: "find_chunk_size (m_chunk_size s) alloc_size 0 = Inr e"
    "\<not> (pe \<and> m_chunk_size s ! e = 0)" and loop: "allocate_loop pe s e 0 = None"
    by (auto simp: allocate_def split: if_splits sum.splits option.splits)
  obtain l where f: "find_freelist (m_chunk_size s) (m_freelist s) e = Inr l"
    using loop allocate_loop_overrun[of s e _ pe 0]
    by (cases "find_freelist (m_chunk_size s) (m_freelist s) e") auto
  note F = find_freelist_Inr[OF f]
  have pos: "0 < m_chunk_size s ! l"
    using loop allocate_loop_exhausted[OF f, of 0 pe]
    by (cases "m_chunk_size s ! l = 0") (auto split: if_splits)
  have locked: "m_freelist s ! l = ?L"
  proof (rule ccontr)
    assume unlocked: "m_freelist s ! l \<noteq> ?L"
    let ?p = "m_freelist s ! l"
    let ?s3 = "s\<lparr>m_freelist := (m_freelist s)[l := m_next s ?p], m_next := (m_next s)(?p := 0)\<rparr>"
    have sub: "subdivide ?s3 ?p l e = None"
      using loop allocate_loop_remove[OF f pos unlocked, of pe 0]
      by (auto split: option.splits sum.splits)
    then have gt: "e < l" by (auto simp: subdivide_def split: if_splits)
    then have "e < length (m_freelist s)" "m_freelist s ! e = 0" using F by auto
    then have "e < length (m_freelist ?s3)" "m_freelist ?s3 ! e \<noteq> ?L"
      using gt by (auto simp: KOKKOS_MEMPOOLLIST_LOCK_def)
    then show False
      using sub gt by (auto simp: subdivide_def Let_def insert_list_free split: if_splits)
  qed
  define spin where "spin c \<longleftrightarrow> (\<exists>j. e \<le> j \<and> j \<le> l \<and> c = A_scan e 0 j) \<or> c = A_read_head e 0 l" for c
  have spin_step: "\<exists>a c'. exec pe s c = (a, s, c') \<and> spin c'" if "spin c" for c
    using that unfolding spin_def
  proof
    assume "\<exists>j. e \<le> j \<and> j \<le> l \<and> c = A_scan e 0 j"
    then obtain j where j: "e \<le> j" "j \<le> l" "c = A_scan e 0 j" by blast
    show "\<exists>a c'. exec pe s c = (a, s, c') \<and>
        ((\<exists>j. e \<le> j \<and> j \<le> l \<and> c' = A_scan e 0 j) \<or> c' = A_read_head e 0 l)"
    proof (cases "j = l")
      case True
      then show ?thesis using j F pos locked by (auto simp: KOKKOS_MEMPOOLLIST_LOCK_def)
    next
      case False
      then have "j < l" using j by simp
      then have "0 < m_chunk_size s ! j" "j < length (m_freelist s)" "m_freelist s ! j = 0"
        "j < length (m_chunk_size s)" "Suc j \<le> l"
        using F j by auto
      then show ?thesis using j by auto
    qed
  next
    assume "c = A_read_head e 0 l"
    then show "\<exists>a c'. exec pe s c = (a, s, c') \<and>
        ((\<exists>j. e \<le> j \<and> j \<le> l \<and> c' = A_scan e 0 j) \<or> c' = A_read_head e 0 l)"
      using locked F by (auto simp: Let_def)
  qed
  have spins: "\<exists>c'. solo pe m s c = (s, c') \<and> spin c'" if "spin c" for m c
    using that
  proof (induction m arbitrary: c)
    case 0
    then show ?case by simp
  next
    case (Suc m)
    from spin_step[OF Suc.prems] obtain a c' where "exec pe s c = (a, s, c')" "spin c'" by blast
    then show ?case using Suc.IH[of c'] by simp
  qed
  have nf: "\<not> finished c" if "spin c" for c
    using that by (auto simp: spin_def)
  show ?thesis
  proof (cases n)
    case 0
    then show ?thesis by simp
  next
    case (Suc m)
    have st: "exec pe s (A_start alloc_size) = (Local, s, A_scan e 0 e)"
      using e by auto
    have "spin (A_scan e 0 e)" using F by (auto simp: spin_def)
    from spins[OF this, of m] obtain c' where "solo pe m s (A_scan e 0 e) = (s, c')" "spin c'"
      by blast
    then show ?thesis using Suc st nf by simp
  qed
qed

end
